theory Spec2Isabelle
  imports Complex_Main
begin

section \<open>The electrochromic display driver of YnvisibleECD.cpp\<close>

text \<open>
  The driver is a C++ class whose methods mutate the object and call the Arduino
  primitives \<^verbatim>\<open>pinMode\<close>, \<^verbatim>\<open>digitalWrite\<close>, \<^verbatim>\<open>analogWrite\<close>, \<^verbatim>\<open>analogRead\<close> and
  \<^verbatim>\<open>delay\<close>. The model passes the object explicitly, as a record; every call of a
  primitive is appended to the field \<open>trace\<close>, in the order of the calls. The
  \<^verbatim>\<open>Serial.print\<close> calls are left out: they write text and touch no field.

  Two things come from outside the code while a method runs. An analog sample is what the
  pin gives at the time of the read, and \<^verbatim>\<open>m_stopDrivingFlag\<close> may be set by an interrupt
  handler that calls \<^verbatim>\<open>setStopDrivingFlag()\<close> between two statements. Both are answers of
  an environment: \<open>adc env k p\<close> is the sample of the \<open>k\<close>-th \<^verbatim>\<open>analogRead\<close> when it reads
  pin \<open>p\<close>, and \<open>irq env k\<close> says that the handler has run just before the \<open>k\<close>-th time the
  code reads the flag. The fields \<open>reads\<close> and \<open>polls\<close> count the reads made so far.
\<close>

subsection \<open>Data\<close>

text \<open>
  Modelled from the spec: the header YnvisibleECD.h, which declares the three state
  constants and the element type of the state arrays, is not among the sources. Section 3
  of the spec gives every segment a state out of Bleached, Colored, Undefined.
\<close>

datatype segment_state = SEGMENT_STATE_BLEACH | SEGMENT_STATE_COLOR | SEGMENT_STATE_UNDEFINED

datatype pin_mode = INPUT | OUTPUT

datatype level = LOW | HIGH

datatype event =
    PinMode int pin_mode
  | DigitalWrite int level
  | AnalogWrite int int
  | AnalogRead int
  | Delay int
  | AnalogReadResolution int
  | AnalogWriteResolution int

datatype outcome = Completed | Stopped

text \<open>
  Modelled from the spec: the macros of the absent header. They are parameters of the
  model, no value is assumed for them.
\<close>

record header =
  PIN_CE :: int
  ADC_DAC_RESOLUTION :: int
  ADC_DAC_MAX_LSB :: int
  MAX_REFRESH_RETRIES :: int

text \<open>
  Modelled from the spec: the configuration record \<^verbatim>\<open>m_cfg\<close>, declared in the absent
  header, with the fields the code reads. Voltages are floating-point numbers in the code
  (they are passed to \<^verbatim>\<open>float\<close> parameters and divided by the supply voltage); the model
  computes with them as real numbers, so rounding is not modelled. Times are the arguments
  of \<^verbatim>\<open>delay\<close>.
\<close>

record config =
  coloringVoltage :: real
  bleachingVoltage :: real
  coloringTime :: int
  bleachingTime :: int
  refreshColoringVoltage :: real
  refreshBleachingVoltage :: real
  refreshColorPulseTime :: int
  refreshBleachPulseTime :: int
  refreshColorLimitHVoltage :: real
  refreshColorLimitLVoltage :: real
  refreshBleachLimitHVoltage :: real
  refreshBleachLimitLVoltage :: real

text \<open>
  The object: the members the code names, then the three fields of the outside world. The
  four arrays are lists; the length of a list is the capacity the header declares.
\<close>

record driver =
  m_counterElectrodePin :: int
  m_numberOfSegments :: int
  m_segmentPinsList :: "int list"
  m_currentState :: "segment_state list"
  m_nextState :: "segment_state list"
  m_refreshSegmentNeeded :: "bool list"
  m_cfg :: config
  m_supplyVoltage :: real
  m_refreshColorLimitH :: real
  m_refreshColorLimitL :: real
  m_refreshBleachLimitH :: real
  m_refreshBleachLimitL :: real
  m_stopDrivingFlag :: bool
  trace :: "event list"
  polls :: nat
  reads :: nat

record env =
  irq :: "nat \<Rightarrow> bool"
  adc :: "nat \<Rightarrow> int \<Rightarrow> int"

text \<open>
  The loops run \<open>i\<close> from 0 while \<open>i < m_numberOfSegments\<close>: over no index at all when
  the count is not positive.
\<close>

definition segments :: "driver \<Rightarrow> nat list" where
  "segments s = [0..<nat (m_numberOfSegments s)]"

text \<open>
  Reading an array beyond its capacity is undefined in C++. The code never checks an
  index, so the model is meant for objects whose arrays hold the segment count.
\<close>

definition well_formed :: "driver \<Rightarrow> bool" where
  "well_formed s \<longleftrightarrow>
     nat (m_numberOfSegments s) \<le> length (m_segmentPinsList s) \<and>
     nat (m_numberOfSegments s) \<le> length (m_currentState s) \<and>
     nat (m_numberOfSegments s) \<le> length (m_nextState s) \<and>
     nat (m_numberOfSegments s) \<le> length (m_refreshSegmentNeeded s)"

subsection \<open>The primitives\<close>

definition pinMode :: "int \<Rightarrow> pin_mode \<Rightarrow> driver \<Rightarrow> driver" where
  "pinMode p m s = s\<lparr>trace := trace s @ [PinMode p m]\<rparr>"

definition digitalWrite :: "int \<Rightarrow> level \<Rightarrow> driver \<Rightarrow> driver" where
  "digitalWrite p l s = s\<lparr>trace := trace s @ [DigitalWrite p l]\<rparr>"

definition analogWrite :: "int \<Rightarrow> int \<Rightarrow> driver \<Rightarrow> driver" where
  "analogWrite p v s = s\<lparr>trace := trace s @ [AnalogWrite p v]\<rparr>"

definition delay :: "int \<Rightarrow> driver \<Rightarrow> driver" where
  "delay ms s = s\<lparr>trace := trace s @ [Delay ms]\<rparr>"

definition analogRead :: "env \<Rightarrow> int \<Rightarrow> driver \<Rightarrow> int \<times> driver" where
  "analogRead e p s =
     (adc e (reads s) p, s\<lparr>trace := trace s @ [AnalogRead p], reads := Suc (reads s)\<rparr>)"

text \<open>
  One evaluation of \<^verbatim>\<open>m_stopDrivingFlag == true\<close>: the handler may have set the flag since
  the last one; the flag stays set, nothing in the two methods clears it.
\<close>

definition stopDriving :: "env \<Rightarrow> driver \<Rightarrow> bool \<times> driver" where
  "stopDriving e s =
     (let s1 = (if irq e (polls s) then s\<lparr>m_stopDrivingFlag := True\<rparr> else s)
                 \<lparr>polls := Suc (polls s)\<rparr>
      in (m_stopDrivingFlag s1, s1))"

text \<open>The conversion \<^verbatim>\<open>int(x)\<close> of a floating-point value: the fraction is dropped.\<close>

definition c_int :: "real \<Rightarrow> int" where
  "c_int x = (if 0 \<le> x then \<lfloor>x\<rfloor> else \<lceil>x\<rceil>)"

text \<open>
  The arrays are declared with the type of \<^verbatim>\<open>setSegmentState\<close>'s parameter in mind:
  \<^verbatim>\<open>begin()\<close> colors with \<^verbatim>\<open>true\<close> and bleaches with \<^verbatim>\<open>false\<close>, and the stored
  state is what \<^verbatim>\<open>digitalWrite\<close> gets as its level.
\<close>

definition state_of_bool :: "bool \<Rightarrow> segment_state" where
  "state_of_bool b = (if b then SEGMENT_STATE_COLOR else SEGMENT_STATE_BLEACH)"

definition level_of :: "segment_state \<Rightarrow> level" where
  "level_of st = (if st = SEGMENT_STATE_BLEACH then LOW else HIGH)"

subsection \<open>Private methods\<close>


fun disable_for :: "nat list \<Rightarrow> driver \<Rightarrow> driver" where
  "disable_for [] s = s"
| "disable_for (i # is) s = disable_for is (pinMode (m_segmentPinsList s ! i) INPUT s)"

definition disableAllSegments :: "driver \<Rightarrow> driver" where
  "disableAllSegments s = disable_for (segments s) s"

definition enableCounterElectrode :: "header \<Rightarrow> real \<Rightarrow> driver \<Rightarrow> driver" where
  "enableCounterElectrode H t_voltage s =
     delay 50 (analogWrite (m_counterElectrodePin s)
                 (c_int (real_of_int (ADC_DAC_MAX_LSB H) * (t_voltage / m_supplyVoltage s))) s)"

definition disableCounterElectrode :: "driver \<Rightarrow> driver" where
  "disableCounterElectrode s = analogWrite (m_counterElectrodePin s) 0 s"

subsection \<open>Bookkeeping methods\<close>

text \<open>
  \<^verbatim>\<open>setSegmentState\<close> writes \<^verbatim>\<open>m_nextState[t_segment]\<close> with no check of the index. A write
  outside the array is undefined behaviour: the model gives \<open>None\<close> for it.
\<close>

definition setSegmentState :: "int \<Rightarrow> bool \<Rightarrow> driver \<Rightarrow> driver option" where
  "setSegmentState t_segment t_state s =
     (if 0 \<le> t_segment \<and> nat t_segment < length (m_nextState s)
      then Some (s\<lparr>m_nextState := (m_nextState s)[nat t_segment := state_of_bool t_state]\<rparr>)
      else None)"

fun set_all_for :: "bool \<Rightarrow> nat list \<Rightarrow> driver \<Rightarrow> driver option" where
  "set_all_for b [] s = Some s"
| "set_all_for b (i # is) s =
     (case setSegmentState (int i) b s of None \<Rightarrow> None | Some s1 \<Rightarrow> set_all_for b is s1)"

definition setAllSegmentsBleach :: "driver \<Rightarrow> driver option" where
  "setAllSegmentsBleach s = set_all_for False (segments s) s"


definition setStopDrivingFlag :: "driver \<Rightarrow> driver" where
  "setStopDrivingFlag s = s\<lparr>m_stopDrivingFlag := True\<rparr>"

definition clearStopDriving :: "driver \<Rightarrow> driver" where
  "clearStopDriving s = s\<lparr>m_stopDrivingFlag := False\<rparr>"

subsection \<open>The constructor\<close>

text \<open>
  The constructor writes the counter-electrode pin, the count, and for every segment its
  pin and its two states. Every other member keeps what the declaration of the class gave
  it: the model takes the object as declared, \<open>obj\<close>, and returns it with the members
  written. It reads \<^verbatim>\<open>t_segments[i]\<close> and writes three arrays at \<open>i\<close>, unchecked:
  \<open>None\<close> where an index is outside its array.
\<close>

fun construct_for :: "int list \<Rightarrow> nat list \<Rightarrow> driver \<Rightarrow> driver option" where
  "construct_for t_segments [] s = Some s"
| "construct_for t_segments (i # is) s =
     (if i < length t_segments \<and> i < length (m_segmentPinsList s)
         \<and> i < length (m_currentState s) \<and> i < length (m_nextState s)
      then
        (let s1 = s\<lparr>m_segmentPinsList := (m_segmentPinsList s)[i := t_segments ! i]\<rparr>;
             s2 = pinMode (m_segmentPinsList s1 ! i) INPUT s1;
             s3 = s2\<lparr>m_currentState := (m_currentState s2)[i := SEGMENT_STATE_UNDEFINED]\<rparr>;
             s4 = s3\<lparr>m_nextState := (m_nextState s3)[i := SEGMENT_STATE_UNDEFINED]\<rparr>
         in construct_for t_segments is s4)
      else None)"

definition YNV_ECD :: "header \<Rightarrow> driver \<Rightarrow> int \<Rightarrow> int list \<Rightarrow> driver option" where
  "YNV_ECD H obj t_numberOfSegments t_segments =
     (let s1 = obj\<lparr>m_counterElectrodePin := PIN_CE H\<rparr>;
          s2 = pinMode (m_counterElectrodePin s1) OUTPUT s1;
          s3 = s2\<lparr>m_numberOfSegments := t_numberOfSegments\<rparr>;
          s4 = s3\<lparr>trace := trace s3 @ [AnalogReadResolution (ADC_DAC_RESOLUTION H)]\<rparr>;
          s5 = s4\<lparr>trace := trace s4 @ [AnalogWriteResolution (ADC_DAC_RESOLUTION H)]\<rparr>
      in construct_for t_segments (segments s5) s5)"

subsection \<open>refreshDisplay\<close>

text \<open>
  A method that returns early because the flag was set gives \<open>Inl\<close> of the object as
  it is at that moment; a loop that ran to its end gives \<open>Inr\<close> of its local variables
  and the object.

  The first loop of \<^verbatim>\<open>refreshDisplay\<close> (lines 199 to 223) samples and classifies.
\<close>

fun classify_for ::
  "env \<Rightarrow> nat list \<Rightarrow> bool \<Rightarrow> bool \<Rightarrow> driver \<Rightarrow> driver + bool \<times> bool \<times> driver" where
  "classify_for e [] refresh_color_needed refresh_bleach_needed s =
     Inr (refresh_color_needed, refresh_bleach_needed, s)"
| "classify_for e (i # is) refresh_color_needed refresh_bleach_needed s =
     (let (stop, s1) = stopDriving e s in
      if stop then Inl s1
      else
        (let s2 = pinMode (m_segmentPinsList s1 ! i) INPUT s1;
             (analog_val, s3) = analogRead e (m_segmentPinsList s2 ! i) s2
         in if m_currentState s3 ! i = SEGMENT_STATE_COLOR
               \<and> real_of_int analog_val < m_refreshColorLimitL s3
            then classify_for e is True refresh_bleach_needed
                   (s3\<lparr>m_refreshSegmentNeeded := (m_refreshSegmentNeeded s3)[i := True]\<rparr>)
            else if m_currentState s3 ! i = SEGMENT_STATE_BLEACH
               \<and> real_of_int analog_val > m_refreshBleachLimitH s3
            then classify_for e is refresh_color_needed True
                   (s3\<lparr>m_refreshSegmentNeeded := (m_refreshSegmentNeeded s3)[i := True]\<rparr>)
            else classify_for e is refresh_color_needed refresh_bleach_needed s3))"

text \<open>
  The pulse loops (lines 271 to 282 and 362 to 373) drive every segment that is in the
  state of the phase and has its flag set: to \<open>LOW\<close> in the bleach phase, to \<open>HIGH\<close> in
  the color phase.
\<close>

fun pulse_for :: "env \<Rightarrow> segment_state \<Rightarrow> level \<Rightarrow> nat list \<Rightarrow> driver \<Rightarrow> driver + driver" where
  "pulse_for e phase lv [] s = Inr s"
| "pulse_for e phase lv (i # is) s =
     (let (stop, s1) = stopDriving e s in
      if stop then Inl s1
      else if m_currentState s1 ! i = phase \<and> m_refreshSegmentNeeded s1 ! i = True
      then pulse_for e phase lv is
             (digitalWrite (m_segmentPinsList s1 ! i) lv
                (pinMode (m_segmentPinsList s1 ! i) OUTPUT s1))
      else pulse_for e phase lv is s1)"

text \<open>
  The loops that sample again (lines 295 to 314 and 386 to 405). \<open>beyond s a\<close> is the
  comparison of the sample with the limit of the phase: \<^verbatim>\<open>analog_val > m_refreshBleachLimitL\<close>
  in the bleach phase, \<^verbatim>\<open>analog_val < currentLimit\<close> in the color phase.
\<close>

fun recheck_for ::
  "env \<Rightarrow> segment_state \<Rightarrow> (driver \<Rightarrow> int \<Rightarrow> bool) \<Rightarrow> int \<Rightarrow> int \<Rightarrow> nat list \<Rightarrow> bool \<Rightarrow> driver
     \<Rightarrow> driver + bool \<times> driver" where
  "recheck_for e phase beyond retries maxr [] needed s = Inr (needed, s)"
| "recheck_for e phase beyond retries maxr (i # is) needed s =
     (let (stop, s1) = stopDriving e s in
      if stop then Inl s1
      else if m_currentState s1 ! i = phase \<and> retries < maxr
      then
        (let s2 = pinMode (m_segmentPinsList s1 ! i) INPUT s1;
             (analog_val, s3) = analogRead e (m_segmentPinsList s2 ! i) s2
         in if beyond s3 analog_val
            then recheck_for e phase beyond retries maxr is True
                   (s3\<lparr>m_refreshSegmentNeeded := (m_refreshSegmentNeeded s3)[i := True]\<rparr>)
            else recheck_for e phase beyond retries maxr is needed s3)
      else recheck_for e phase beyond retries maxr is needed s1)"

lemma recheck_for_needed:
  "recheck_for e phase beyond retries maxr is needed s = Inr (needed', s')
     \<Longrightarrow> needed' \<Longrightarrow> needed \<or> retries < maxr"
  by (induction "is" arbitrary: needed s)
     (auto simp: Let_def split: prod.splits if_splits)

text \<open>
  The two \<^verbatim>\<open>while\<close> loops (lines 264 to 320 and 354 to 411). One pass through the
  body of a loop is a definition of its own; it gives the loop's condition for the next
  pass. The loop goes round again only when a sample has set its condition, which asks for
  \<open>retries < MAX_REFRESH_RETRIES\<close>; \<open>retries\<close> grows by one every time round.
\<close>

definition refresh_bleach_round :: "header \<Rightarrow> env \<Rightarrow> int \<Rightarrow> driver \<Rightarrow> driver + bool \<times> driver" where
  "refresh_bleach_round H e retries s =
     (let (stop, s1) = stopDriving e s in
      if stop then Inl s1
      else
        (case pulse_for e SEGMENT_STATE_BLEACH LOW (segments s1) s1 of
           Inl a \<Rightarrow> Inl a
         | Inr s2 \<Rightarrow>
             (let s3 = disableAllSegments (delay (refreshBleachPulseTime (m_cfg s2)) s2);
                  (stop, s4) = stopDriving e s3
              in if stop then Inl s4
                 else
                   (case recheck_for e SEGMENT_STATE_BLEACH
                           (\<lambda>s a. real_of_int a > m_refreshBleachLimitL s)
                           retries (MAX_REFRESH_RETRIES H) (segments s4) False s4 of
                      Inl a \<Rightarrow> Inl a
                    | Inr (needed, s5) \<Rightarrow> Inr (needed, delay 500 s5)))))"

lemma refresh_bleach_round_needed:
  "refresh_bleach_round H e retries s = Inr (True, s') \<Longrightarrow> retries < MAX_REFRESH_RETRIES H"
  by (auto simp: refresh_bleach_round_def Let_def
        split: prod.splits if_splits sum.splits dest: recheck_for_needed)

function refresh_bleach_while :: "header \<Rightarrow> env \<Rightarrow> bool \<Rightarrow> int \<Rightarrow> driver \<Rightarrow> driver + driver" where
  "refresh_bleach_while H e refresh_bleach_needed retries s =
     (if \<not> refresh_bleach_needed then Inr s
      else
        (case refresh_bleach_round H e retries s of
           Inl a \<Rightarrow> Inl a
         | Inr (needed, s1) \<Rightarrow> refresh_bleach_while H e needed (retries + 1) s1))"
  by pat_completeness auto
termination
proof (relation "measure (\<lambda>(H, e, needed, retries, s).
                   if needed then Suc (nat (MAX_REFRESH_RETRIES H - retries)) else 0)")
  show "wf (measure (\<lambda>(H, e, needed, retries, s).
                   if needed then Suc (nat (MAX_REFRESH_RETRIES H - retries)) else 0))"
    by simp
next
  fix H :: header and e refresh_bleach_needed and retries :: int and s x2 needed s1
  assume "\<not> \<not> refresh_bleach_needed"
    and "refresh_bleach_round H e retries s = Inr x2"
    and "(needed, s1) = x2"
  then have "needed \<Longrightarrow> retries < MAX_REFRESH_RETRIES H"
    using refresh_bleach_round_needed [of H e retries s s1] by auto
  then show "((H, e, needed, retries + 1, s1), H, e, refresh_bleach_needed, retries, s)
       \<in> measure (\<lambda>(H, e, needed, retries, s).
                   if needed then Suc (nat (MAX_REFRESH_RETRIES H - retries)) else 0)"
    using \<open>\<not> \<not> refresh_bleach_needed\<close> by auto
qed

declare refresh_bleach_while.simps [simp del]

definition refresh_color_round ::
  "header \<Rightarrow> env \<Rightarrow> real \<Rightarrow> int \<Rightarrow> driver \<Rightarrow> driver + bool \<times> driver" where
  "refresh_color_round H e currentLimit retries s =
     (let (stop, s1) = stopDriving e s in
      if stop then Inl s1
      else
        (case pulse_for e SEGMENT_STATE_COLOR HIGH (segments s1) s1 of
           Inl a \<Rightarrow> Inl a
         | Inr s2 \<Rightarrow>
             (let s3 = delay (refreshColorPulseTime (m_cfg s2)) s2;
                  (stop, s4) = stopDriving e s3
              in if stop then Inl s4
                 else
                   (let s5 = disableAllSegments s4
                    in case recheck_for e SEGMENT_STATE_COLOR
                              (\<lambda>s a. real_of_int a < currentLimit)
                              retries (MAX_REFRESH_RETRIES H) (segments s5) False s5 of
                         Inl a \<Rightarrow> Inl a
                       | Inr (needed, s6) \<Rightarrow> Inr (needed, delay 500 s6)))))"

lemma refresh_color_round_needed:
  "refresh_color_round H e currentLimit retries s = Inr (True, s')
     \<Longrightarrow> retries < MAX_REFRESH_RETRIES H"
  by (auto simp: refresh_color_round_def Let_def
        split: prod.splits if_splits sum.splits dest: recheck_for_needed)

function refresh_color_while ::
  "header \<Rightarrow> env \<Rightarrow> real \<Rightarrow> bool \<Rightarrow> int \<Rightarrow> driver \<Rightarrow> driver + driver" where
  "refresh_color_while H e currentLimit refresh_color_needed retries s =
     (if \<not> refresh_color_needed then Inr s
      else
        (case refresh_color_round H e currentLimit retries s of
           Inl a \<Rightarrow> Inl a
         | Inr (needed, s1) \<Rightarrow>
             refresh_color_while H e currentLimit needed (retries + 1) s1))"
  by pat_completeness auto
termination
proof (relation "measure (\<lambda>(H, e, lim, needed, retries, s).
                   if needed then Suc (nat (MAX_REFRESH_RETRIES H - retries)) else 0)")
  show "wf (measure (\<lambda>(H, e, lim, needed, retries, s).
                   if needed then Suc (nat (MAX_REFRESH_RETRIES H - retries)) else 0))"
    by simp
next
  fix H :: header and e and currentLimit :: real and refresh_color_needed
    and retries :: int and s x2 needed s1
  assume "\<not> \<not> refresh_color_needed"
    and "refresh_color_round H e currentLimit retries s = Inr x2"
    and "(needed, s1) = x2"
  then have "needed \<Longrightarrow> retries < MAX_REFRESH_RETRIES H"
    using refresh_color_round_needed [of H e currentLimit retries s s1] by auto
  then show "((H, e, currentLimit, needed, retries + 1, s1),
              H, e, currentLimit, refresh_color_needed, retries, s)
       \<in> measure (\<lambda>(H, e, lim, needed, retries, s).
                   if needed then Suc (nat (MAX_REFRESH_RETRIES H - retries)) else 0)"
    using \<open>\<not> \<not> refresh_color_needed\<close> by auto
qed

declare refresh_color_while.simps [simp del]

text \<open>
  \<^verbatim>\<open>refreshDisplay\<close>, lines 171 to 415. Its three ways out are the return on the flag
  (\<open>Stopped\<close>), the return of line 232 when no sample asked for a refresh, and the end of
  the body; the last two are \<open>Completed\<close>.
\<close>

definition refreshDisplay :: "header \<Rightarrow> env \<Rightarrow> driver \<Rightarrow> outcome \<times> driver" where
  "refreshDisplay H e s =
     (let (stop, s1) = stopDriving e s in
      if stop then (Stopped, s1)
      else
        (let s2 = enableCounterElectrode H (m_supplyVoltage s1 / 2) s1;
             s3 = disableAllSegments s2
         in case classify_for e (segments s3) False False s3 of
              Inl a \<Rightarrow> (Stopped, a)
            | Inr (refresh_color_needed, refresh_bleach_needed, s4) \<Rightarrow>
                (let (stop, s5) = stopDriving e s4 in
                 if stop then (Stopped, s5)
                 else if (refresh_bleach_needed \<or> refresh_color_needed) = False
                 then (Completed, s5)
                 else
                   (let counterElecVal = refreshBleachingVoltage (m_cfg s5);
                        s6 = enableCounterElectrode H counterElecVal s5
                    in case refresh_bleach_while H e refresh_bleach_needed 0 s6 of
                         Inl a \<Rightarrow> (Stopped, a)
                       | Inr s7 \<Rightarrow>
                           (let counterElecVal =
                                  m_supplyVoltage s7 - refreshColoringVoltage (m_cfg s7);
                                currentLimit = m_refreshColorLimitH s7;
                                s8 = enableCounterElectrode H counterElecVal s7
                            in case refresh_color_while H e currentLimit
                                      refresh_color_needed 0 s8 of
                                 Inl a \<Rightarrow> (Stopped, a)
                               | Inr s9 \<Rightarrow> (Completed, disableCounterElectrode s9))))))"

subsection \<open>executeDisplay\<close>

text \<open>
  The two loops of \<^verbatim>\<open>executeDisplay\<close> (lines 83 to 104 and 124 to 144) differ in the
  state they look for, \<open>phase\<close>. The local \<^verbatim>\<open>isDelayRequired\<close> is the loop's result.
\<close>

fun transition_for ::
  "env \<Rightarrow> segment_state \<Rightarrow> nat list \<Rightarrow> bool \<Rightarrow> driver \<Rightarrow> driver + bool \<times> driver" where
  "transition_for e phase [] isDelayRequired s = Inr (isDelayRequired, s)"
| "transition_for e phase (i # is) isDelayRequired s =
     (let (stop, s1) = stopDriving e s in
      if stop then Inl s1
      else if m_nextState s1 ! i \<noteq> m_currentState s1 ! i \<and> m_nextState s1 ! i = phase
      then
        (let s2 = pinMode (m_segmentPinsList s1 ! i) OUTPUT s1;
             s3 = digitalWrite (m_segmentPinsList s2 ! i) (level_of (m_nextState s2 ! i)) s2;
             s4 = s3\<lparr>m_currentState := (m_currentState s3)[i := m_nextState s3 ! i]\<rparr>
         in transition_for e phase is True s4)
      else transition_for e phase is isDelayRequired s1)"

text \<open>The hold after a loop (lines 105 to 113 and 145 to 153).\<close>

definition hold :: "env \<Rightarrow> bool \<Rightarrow> int \<Rightarrow> driver \<Rightarrow> driver + driver" where
  "hold e isDelayRequired ms s =
     (if isDelayRequired
      then (let (stop, s1) = stopDriving e s in if stop then Inl s1 else Inr (delay ms s1))
      else Inr s)"

text \<open>Lines 74 to 116: the bleach phase.\<close>

definition bleachPhase :: "header \<Rightarrow> env \<Rightarrow> driver \<Rightarrow> driver + driver" where
  "bleachPhase H e s =
     (let s1 = enableCounterElectrode H (bleachingVoltage (m_cfg s)) s
      in case transition_for e SEGMENT_STATE_BLEACH (segments s1) False s1 of
           Inl a \<Rightarrow> Inl a
         | Inr (isDelayRequired, s2) \<Rightarrow>
             (case hold e isDelayRequired (bleachingTime (m_cfg s2)) s2 of
                Inl a \<Rightarrow> Inl a
              | Inr s3 \<Rightarrow> Inr (disableAllSegments s3)))"

text \<open>Lines 118 to 157: the color phase.\<close>

definition colorPhase :: "header \<Rightarrow> env \<Rightarrow> driver \<Rightarrow> driver + driver" where
  "colorPhase H e s =
     (let s1 = enableCounterElectrode H (m_supplyVoltage s - coloringVoltage (m_cfg s)) s
      in case transition_for e SEGMENT_STATE_COLOR (segments s1) False s1 of
           Inl a \<Rightarrow> Inl a
         | Inr (isDelayRequired, s2) \<Rightarrow>
             (case hold e isDelayRequired (coloringTime (m_cfg s2)) s2 of
                Inl a \<Rightarrow> Inl a
              | Inr s3 \<Rightarrow> Inr (disableCounterElectrode (disableAllSegments s3))))"

text \<open>Lines 74 to 157: both phases, everything before the call of \<^verbatim>\<open>refreshDisplay\<close>.\<close>

definition drivePhases :: "header \<Rightarrow> env \<Rightarrow> driver \<Rightarrow> driver + driver" where
  "drivePhases H e s =
     (case bleachPhase H e s of Inl a \<Rightarrow> Inl a | Inr s1 \<Rightarrow> colorPhase H e s1)"

definition executeDisplay :: "header \<Rightarrow> env \<Rightarrow> driver \<Rightarrow> outcome \<times> driver" where
  "executeDisplay H e s =
     (case drivePhases H e s of
        Inl a \<Rightarrow> (Stopped, a)
      | Inr s1 \<Rightarrow>
          (let (r, s2) = refreshDisplay H e s1;
               (stop, s3) = stopDriving e s2
           in if stop then (Stopped, s3) else (Completed, s3)))"

subsection \<open>begin\<close>

text \<open>
  \<^verbatim>\<open>begin()\<close> goes on after an \<^verbatim>\<open>executeDisplay\<close> that returned early: the method
  gives no result to look at. The outcome here is that of the second call.
\<close>

definition begin_display :: "header \<Rightarrow> env \<Rightarrow> driver \<Rightarrow> (outcome \<times> driver) option" where
  "begin_display H e s =
     (case set_all_for True (segments s) s of
        None \<Rightarrow> None
      | Some s1 \<Rightarrow>
          (let (r, s2) = executeDisplay H e s1
           in case set_all_for False (segments s2) s2 of
                None \<Rightarrow> None
              | Some s3 \<Rightarrow> Some (executeDisplay H e s3)))"

section \<open>Concrete objects\<close>

text \<open>
  A header, a configuration and a display of two segments on pins 2 and 3, the first
  bleached and the second colored, on a supply of 5 V. The theorems below are tried on
  them.
\<close>

definition demo_header :: header where
  "demo_header = \<lparr>PIN_CE = 14, ADC_DAC_RESOLUTION = 10, ADC_DAC_MAX_LSB = 1023,
                   MAX_REFRESH_RETRIES = 2\<rparr>"

definition demo_cfg :: config where
  "demo_cfg = \<lparr>coloringVoltage = 3, bleachingVoltage = 1, coloringTime = 1500,
     bleachingTime = 1000, refreshColoringVoltage = 2, refreshBleachingVoltage = 1,
     refreshColorPulseTime = 120, refreshBleachPulseTime = 100,
     refreshColorLimitHVoltage = 1, refreshColorLimitLVoltage = 1/2,
     refreshBleachLimitHVoltage = 1/2, refreshBleachLimitLVoltage = 1/4\<rparr>"

definition demo_driver :: driver where
  "demo_driver = \<lparr>m_counterElectrodePin = 14, m_numberOfSegments = 2,
     m_segmentPinsList = [2, 3],
     m_currentState = [SEGMENT_STATE_BLEACH, SEGMENT_STATE_COLOR],
     m_nextState = [SEGMENT_STATE_BLEACH, SEGMENT_STATE_COLOR],
     m_refreshSegmentNeeded = [False, False],
     m_cfg = demo_cfg, m_supplyVoltage = 5,
     m_refreshColorLimitH = 818, m_refreshColorLimitL = 613,
     m_refreshBleachLimitH = 409, m_refreshBleachLimitL = 153,
     m_stopDrivingFlag = False, trace = [], polls = 0, reads = 0\<rparr>"

definition setup_eq :: "driver \<Rightarrow> driver \<Rightarrow> bool" where
  "setup_eq s s' \<longleftrightarrow>
     m_counterElectrodePin s' = m_counterElectrodePin s \<and>
     m_numberOfSegments s' = m_numberOfSegments s \<and>
     m_segmentPinsList s' = m_segmentPinsList s \<and>
     m_nextState s' = m_nextState s \<and>
     m_cfg s' = m_cfg s \<and>
     m_supplyVoltage s' = m_supplyVoltage s \<and>
     m_refreshColorLimitH s' = m_refreshColorLimitH s \<and>
     m_refreshColorLimitL s' = m_refreshColorLimitL s \<and>
     m_refreshBleachLimitH s' = m_refreshBleachLimitH s \<and>
     m_refreshBleachLimitL s' = m_refreshBleachLimitL s"

definition quiet_for :: "env \<Rightarrow> driver \<Rightarrow> nat \<Rightarrow> bool" where
  "quiet_for e s n \<longleftrightarrow> \<not> m_stopDrivingFlag s \<and> (\<forall>j<n. \<not> irq e (polls s + j))"

definition due :: "segment_state \<Rightarrow> driver \<Rightarrow> nat \<Rightarrow> bool" where
  "due phase s i \<longleftrightarrow> m_nextState s ! i \<noteq> m_currentState s ! i \<and> m_nextState s ! i = phase"

definition drive_events :: "segment_state \<Rightarrow> driver \<Rightarrow> nat \<Rightarrow> event list" where
  "drive_events phase s i =
     (if due phase s i
      then [PinMode (m_segmentPinsList s ! i) OUTPUT,
            DigitalWrite (m_segmentPinsList s ! i) (level_of phase)]
      else [])"

fun drives :: "int \<Rightarrow> event \<Rightarrow> bool" where
  "drives p (PinMode q m) = (q = p \<and> m = OUTPUT)"
| "drives p (DigitalWrite q l) = (q = p)"
| "drives p _ = False"

definition touched :: "segment_state \<Rightarrow> nat list \<Rightarrow> driver \<Rightarrow> driver \<Rightarrow> bool" where
  "touched phase is s s' \<longleftrightarrow>
     setup_eq s s' \<and>
     m_refreshSegmentNeeded s' = m_refreshSegmentNeeded s \<and>
     reads s' = reads s \<and>
     length (m_currentState s') = length (m_currentState s) \<and>
     (\<forall>x. m_currentState s' ! x = m_currentState s ! x
          \<or> (x \<in> set is \<and> due phase s x \<and> m_currentState s' ! x = phase)) \<and>
     (\<exists>evs. trace s' = trace s @ evs
          \<and> (\<forall>ev\<in>set evs. \<exists>j\<in>set is. due phase s j \<and> ev \<in> set (drive_events phase s j)))"

definition refresh_frame :: "driver \<Rightarrow> driver \<Rightarrow> bool" where
  "refresh_frame s s' \<longleftrightarrow>
     setup_eq s s' \<and>
     m_currentState s' = m_currentState s \<and>
     length (m_refreshSegmentNeeded s') = length (m_refreshSegmentNeeded s) \<and>
     (\<forall>i<length (m_refreshSegmentNeeded s).
        m_refreshSegmentNeeded s ! i \<longrightarrow> m_refreshSegmentNeeded s' ! i)"

definition phase_core :: "env \<Rightarrow> segment_state \<Rightarrow> int \<Rightarrow> driver \<Rightarrow> driver + driver" where
  "phase_core e phase ms s =
     (case transition_for e phase (segments s) False s of
        Inl a \<Rightarrow> Inl a
      | Inr (isDelayRequired, s2) \<Rightarrow>
          (case hold e isDelayRequired ms s2 of
             Inl a \<Rightarrow> Inl a
           | Inr s3 \<Rightarrow> Inr (disableAllSegments s3)))"

definition hold_polls :: "segment_state \<Rightarrow> driver \<Rightarrow> nat" where
  "hold_polls phase s = (if \<exists>i\<in>set (segments s). due phase s i then 1 else 0)"

definition float_events :: "driver \<Rightarrow> event list" where
  "float_events s = map (\<lambda>i. PinMode (m_segmentPinsList s ! i) INPUT) (segments s)"

definition calm :: "env \<Rightarrow> bool" where
  "calm e \<longleftrightarrow> (\<forall>k. \<not> irq e k)"

definition low_color :: "driver \<Rightarrow> nat \<Rightarrow> int \<Rightarrow> bool" where
  "low_color s i a \<longleftrightarrow>
     m_currentState s ! i = SEGMENT_STATE_COLOR \<and> real_of_int a < m_refreshColorLimitL s"

definition high_bleach :: "driver \<Rightarrow> nat \<Rightarrow> int \<Rightarrow> bool" where
  "high_bleach s i a \<longleftrightarrow>
     m_currentState s ! i = SEGMENT_STATE_BLEACH \<and> real_of_int a > m_refreshBleachLimitH s"

definition pulse_events :: "segment_state \<Rightarrow> level \<Rightarrow> driver \<Rightarrow> nat \<Rightarrow> event list" where
  "pulse_events phase lv s i =
     (if m_currentState s ! i = phase \<and> m_refreshSegmentNeeded s ! i
      then [PinMode (m_segmentPinsList s ! i) OUTPUT, DigitalWrite (m_segmentPinsList s ! i) lv]
      else [])"

definition distinct_pins :: "driver \<Rightarrow> bool" where
  "distinct_pins s \<longleftrightarrow> distinct (map (\<lambda>j. m_segmentPinsList s ! j) (segments s))"

definition after_pulses :: "segment_state \<Rightarrow> level \<Rightarrow> int \<Rightarrow> driver \<Rightarrow> driver" where
  "after_pulses phase lv ms s =
     s\<lparr>polls := polls s + length (segments s) + 2,
       trace := trace s @ concat (map (pulse_events phase lv s) (segments s))
                  @ [Delay ms] @ float_events s\<rparr>"

definition round_core ::
  "env \<Rightarrow> segment_state \<Rightarrow> level \<Rightarrow> (driver \<Rightarrow> int \<Rightarrow> bool) \<Rightarrow> int \<Rightarrow> int \<Rightarrow> int \<Rightarrow> driver
     \<Rightarrow> driver + bool \<times> driver" where
  "round_core e phase lv beyond retries maxr ms s =
     (case recheck_for e phase beyond retries maxr (segments s) False
             (after_pulses phase lv ms s) of
        Inl a \<Rightarrow> Inl a
      | Inr (needed, s5) \<Rightarrow> Inr (needed, delay 500 s5))"

definition pulses :: "int \<Rightarrow> level \<Rightarrow> driver \<Rightarrow> nat" where
  "pulses p l s = count_list (trace s) (DigitalWrite p l)"

definition sample_events :: "segment_state \<Rightarrow> int \<Rightarrow> int \<Rightarrow> driver \<Rightarrow> nat \<Rightarrow> event list" where
  "sample_events phase retries maxr s j =
     (if m_currentState s ! j = phase \<and> retries < maxr
      then [PinMode (m_segmentPinsList s ! j) INPUT, AnalogRead (m_segmentPinsList s ! j)]
      else [])"

definition read_events :: "driver \<Rightarrow> nat \<Rightarrow> event list" where
  "read_events s j =
     [PinMode (m_segmentPinsList s ! j) INPUT, AnalogRead (m_segmentPinsList s ! j)]"

definition mid_rail :: "header \<Rightarrow> driver \<Rightarrow> driver" where
  "mid_rail H s =
     s\<lparr>polls := Suc (polls s),
       trace := trace s @
         [AnalogWrite (m_counterElectrodePin s)
            (c_int (real_of_int (ADC_DAC_MAX_LSB H) * (m_supplyVoltage s / 2 / m_supplyVoltage s))),
          Delay 50] @ float_events s\<rparr>"

definition classified :: "env \<Rightarrow> driver \<Rightarrow> nat \<Rightarrow> bool" where
  "classified e s x \<longleftrightarrow>
     low_color s x (adc e (reads s + x) (m_segmentPinsList s ! x))
     \<or> high_bleach s x (adc e (reads s + x) (m_segmentPinsList s ! x))"

definition samples :: "int \<Rightarrow> driver \<Rightarrow> nat" where
  "samples p s = count_list (trace s) (AnalogRead p)"

text \<open>
  An environment with no interrupt in which the bleached segment of the display (pin 2)
  always gives 1000, above both bleach limits, and the colored one (pin 3) gives 900, above
  both color limits.
\<close>

definition drifted_env :: env where
  "drifted_env = \<lparr>irq = (\<lambda>k. False), adc = (\<lambda>k p. if p = 2 then 1000 else 900)\<rparr>"

text \<open>
  An environment with no interrupt in which both segments of the display are in range: the
  bleached one (pin 2) gives 100, the colored one (pin 3) gives 900.
\<close>

definition still_env :: env where
  "still_env = \<lparr>irq = (\<lambda>k. False), adc = (\<lambda>k p. if p = 2 then 100 else 900)\<rparr>"

text \<open>
  The display with both segments colored, and an environment with no interrupt in which
  pin 2 gives 100, below both color limits, and pin 3 gives 700, between them.
\<close>

definition colored_driver :: driver where
  "colored_driver = demo_driver\<lparr>m_currentState := [SEGMENT_STATE_COLOR, SEGMENT_STATE_COLOR],
                                m_nextState := [SEGMENT_STATE_COLOR, SEGMENT_STATE_COLOR]\<rparr>"

definition band_env :: env where
  "band_env = \<lparr>irq = (\<lambda>k. False), adc = (\<lambda>k p. if p = 2 then 100 else 700)\<rparr>"

text \<open>
  The display with both segments bleached, and an environment with no interrupt in which
  pin 2 gives 1000, above both bleach limits, and pin 3 gives 300, between them.
\<close>

definition bleached_driver :: driver where
  "bleached_driver = demo_driver\<lparr>m_currentState := [SEGMENT_STATE_BLEACH, SEGMENT_STATE_BLEACH],
                                 m_nextState := [SEGMENT_STATE_BLEACH, SEGMENT_STATE_BLEACH]\<rparr>"

definition bleach_band_env :: env where
  "bleach_band_env = \<lparr>irq = (\<lambda>k. False), adc = (\<lambda>k p. if p = 2 then 1000 else 300)\<rparr>"

(*DEFS*)

section \<open>Bookkeeping\<close>

text \<open>
  C8. \<^verbatim>\<open>setSegmentState(index, state)\<close> with \<open>0 \<le> index < m_numberOfSegments\<close> writes
  the state to \<open>m_nextState[index]\<close> and nothing else: the other elements of
  \<open>m_nextState\<close> are as before, no primitive is called (the trace is the same), and the
  object with its old \<open>m_nextState\<close> put back is the old object, so no other field has
  changed.
\<close>

theorem setSegmentState_frame:
  assumes "0 \<le> index" and "index < m_numberOfSegments s" and "well_formed s"
  shows "\<exists>s'. setSegmentState index state s = Some s'
           \<and> m_nextState s' = (m_nextState s)[nat index := state_of_bool state]
           \<and> m_nextState s' ! nat index = state_of_bool state
           \<and> (\<forall>j. j \<noteq> nat index \<longrightarrow> m_nextState s' ! j = m_nextState s ! j)
           \<and> trace s' = trace s
           \<and> s'\<lparr>m_nextState := m_nextState s\<rparr> = s"
proof -
  from assms have "nat index < nat (m_numberOfSegments s)"
    by linarith
  with assms(3) have "nat index < length (m_nextState s)"
    unfolding well_formed_def by linarith
  with assms(1) show ?thesis
    by (simp add: setSegmentState_def)
qed

theorem setSegmentState_frame_witness:
  "setSegmentState 1 False demo_driver
     = Some (demo_driver\<lparr>m_nextState := [SEGMENT_STATE_BLEACH, SEGMENT_STATE_BLEACH]\<rparr>)"
  using setSegmentState_frame [of 1 demo_driver False]
  by (simp add: demo_driver_def well_formed_def setSegmentState_def state_of_bool_def)

section \<open>The refresh limits\<close>






lemmas prim_defs = pinMode_def digitalWrite_def analogWrite_def delay_def analogRead_def

lemma stopDriving_quiet:
  "quiet_for e s (Suc n) \<Longrightarrow> stopDriving e s = (False, s\<lparr>polls := Suc (polls s)\<rparr>)"
  by (auto simp: quiet_for_def stopDriving_def Let_def)

lemma quiet_for_step:
  "quiet_for e s (Suc n) \<Longrightarrow> m_stopDrivingFlag s' = m_stopDrivingFlag s
     \<Longrightarrow> polls s' = Suc (polls s) \<Longrightarrow> quiet_for e s' n"
  by (auto simp: quiet_for_def)

lemma transition_for_quiet:
  assumes "quiet_for e s (length is)" and "distinct is"
    and "\<forall>i\<in>set is. i < length (m_currentState s)"
  shows "\<exists>d' s'. transition_for e phase is d s = Inr (d', s')
           \<and> d' = (d \<or> (\<exists>i\<in>set is. due phase s i))
           \<and> setup_eq s s'
           \<and> m_refreshSegmentNeeded s' = m_refreshSegmentNeeded s
           \<and> m_stopDrivingFlag s' = False
           \<and> polls s' = polls s + length is
           \<and> reads s' = reads s
           \<and> length (m_currentState s') = length (m_currentState s)
           \<and> (\<forall>x. m_currentState s' ! x
                     = (if x \<in> set is \<and> due phase s x then phase else m_currentState s ! x))
           \<and> trace s' = trace s @ concat (map (drive_events phase s) is)"
  using assms
proof (induction "is" arbitrary: d s)
  case Nil
  then show ?case by (simp add: setup_eq_def quiet_for_def)
next
  case (Cons i "is")
  let ?s1 = "s\<lparr>polls := Suc (polls s)\<rparr>"
  have sd: "stopDriving e s = (False, ?s1)"
    using Cons.prems(1) stopDriving_quiet [of e s "length is"] by simp
  show ?case
  proof (cases "due phase s i")
    case True
    let ?s4 = "?s1\<lparr>trace := trace s @ [PinMode (m_segmentPinsList s ! i) OUTPUT,
                  DigitalWrite (m_segmentPinsList s ! i) (level_of (m_nextState s ! i))],
                m_currentState := (m_currentState s)[i := m_nextState s ! i]\<rparr>"
    have q: "quiet_for e ?s4 (length is)"
      using Cons.prems(1) by (auto simp: quiet_for_def)
    have same: "due phase ?s4 x = due phase s x" if "x \<in> set is" for x
    proof -
      from that Cons.prems(2) have "i \<noteq> x" by auto
      then show ?thesis by (simp add: due_def)
    qed
    have step: "transition_for e phase (i # is) d s = transition_for e phase is True ?s4"
      using True sd by (auto simp: due_def prim_defs)
    from Cons.IH [OF q, of True] Cons.prems(2,3)
    obtain d' s' where r: "transition_for e phase is True ?s4 = Inr (d', s')"
      and d: "d'"
      and f: "setup_eq ?s4 s'" "m_refreshSegmentNeeded s' = m_refreshSegmentNeeded ?s4"
        "m_stopDrivingFlag s' = False" "polls s' = polls ?s4 + length is"
        "reads s' = reads ?s4" "length (m_currentState s') = length (m_currentState ?s4)"
      and c: "\<forall>x. m_currentState s' ! x
                     = (if x \<in> set is \<and> due phase ?s4 x then phase else m_currentState ?s4 ! x)"
      and t: "trace s' = trace ?s4 @ concat (map (drive_events phase ?s4) is)"
      by auto
    have m: "map (drive_events phase ?s4) is = map (drive_events phase s) is"
      using same by (auto simp: drive_events_def)
    have hd: "drive_events phase s i = [PinMode (m_segmentPinsList s ! i) OUTPUT,
                  DigitalWrite (m_segmentPinsList s ! i) (level_of (m_nextState s ! i))]"
      using True by (auto simp: drive_events_def due_def)
    have t': "trace s' = trace s @ concat (map (drive_events phase s) (i # is))"
      using t unfolding m by (simp add: hd)
    have c': "m_currentState s' ! x
                = (if x \<in> set (i # is) \<and> due phase s x then phase else m_currentState s ! x)" for x
      using c same True Cons.prems(2,3) by (auto simp: due_def nth_list_update)
    have f': "setup_eq s s'" "m_refreshSegmentNeeded s' = m_refreshSegmentNeeded s"
        "polls s' = polls s + length (i # is)"
        "reads s' = reads s" "length (m_currentState s') = length (m_currentState s)"
      using f by (simp_all add: setup_eq_def)
    have d': "d' = (d \<or> (\<exists>j\<in>set (i # is). due phase s j))"
      using d True by simp
    show ?thesis
      unfolding step using r d' f' f(3) c' t' by blast
  next
    case False
    have q: "quiet_for e ?s1 (length is)"
      using Cons.prems(1) by (auto simp: quiet_for_def)
    have step: "transition_for e phase (i # is) d s = transition_for e phase is d ?s1"
      using False sd by (auto simp: due_def)
    have same: "due phase ?s1 x = due phase s x" for x
      by (simp add: due_def)
    from Cons.IH [OF q, of d] Cons.prems(2,3)
    obtain d' s' where r: "transition_for e phase is d ?s1 = Inr (d', s')"
      and d: "d' = (d \<or> (\<exists>i\<in>set is. due phase ?s1 i))"
      and f: "setup_eq ?s1 s'" "m_refreshSegmentNeeded s' = m_refreshSegmentNeeded ?s1"
        "m_stopDrivingFlag s' = False" "polls s' = polls ?s1 + length is"
        "reads s' = reads ?s1" "length (m_currentState s') = length (m_currentState ?s1)"
      and c: "\<forall>x. m_currentState s' ! x
                     = (if x \<in> set is \<and> due phase ?s1 x then phase else m_currentState ?s1 ! x)"
      and t: "trace s' = trace ?s1 @ concat (map (drive_events phase ?s1) is)"
      by auto
    have m: "map (drive_events phase ?s1) is = map (drive_events phase s) is"
      by (simp add: drive_events_def due_def)
    have t': "trace s' = trace s @ concat (map (drive_events phase s) (i # is))"
      using t False unfolding m by (simp add: drive_events_def)
    have c': "m_currentState s' ! x
                = (if x \<in> set (i # is) \<and> due phase s x then phase else m_currentState s ! x)" for x
      using c False unfolding same by auto
    have f': "setup_eq s s'" "m_refreshSegmentNeeded s' = m_refreshSegmentNeeded s"
        "polls s' = polls s + length (i # is)"
        "reads s' = reads s" "length (m_currentState s') = length (m_currentState s)"
      using f by (simp_all add: setup_eq_def)
    have d': "d' = (d \<or> (\<exists>j\<in>set (i # is). due phase s j))"
      using d False unfolding same by simp
    show ?thesis
      unfolding step using r d' f' f(3) c' t' by blast
  qed
qed


lemma transition_for_append:
  "transition_for e phase (xs @ ys) d s =
     (case transition_for e phase xs d s of
        Inl a \<Rightarrow> Inl a
      | Inr (d', s') \<Rightarrow> transition_for e phase ys d' s')"
  by (induction xs arbitrary: d s) (simp_all add: Let_def split: prod.splits)

lemma transition_for_stop:
  assumes "\<not> m_stopDrivingFlag s" and "k < length is"
    and "\<forall>j<k. \<not> irq e (polls s + j)" and "irq e (polls s + k)"
    and "distinct is" and "\<forall>i\<in>set is. i < length (m_currentState s)"
  shows "\<exists>s'. transition_for e phase is d s = Inl s'
           \<and> setup_eq s s'
           \<and> m_refreshSegmentNeeded s' = m_refreshSegmentNeeded s
           \<and> m_stopDrivingFlag s' = True
           \<and> polls s' = polls s + Suc k
           \<and> reads s' = reads s
           \<and> length (m_currentState s') = length (m_currentState s)
           \<and> (\<forall>x. m_currentState s' ! x
                     = (if x \<in> set (take k is) \<and> due phase s x then phase
                        else m_currentState s ! x))"
proof -
  have q: "quiet_for e s (length (take k is))"
    using assms(1,2,3) by (simp add: quiet_for_def)
  have dt: "distinct (take k is)" "\<forall>i\<in>set (take k is). i < length (m_currentState s)"
    using assms(5,6) by (auto dest: in_set_takeD)
  from transition_for_quiet [OF q dt, of phase d]
  obtain d1 s1 where r: "transition_for e phase (take k is) d s = Inr (d1, s1)"
    and f: "setup_eq s s1" "m_refreshSegmentNeeded s1 = m_refreshSegmentNeeded s"
      "m_stopDrivingFlag s1 = False" "polls s1 = polls s + length (take k is)"
      "reads s1 = reads s" "length (m_currentState s1) = length (m_currentState s)"
    and c: "\<forall>x. m_currentState s1 ! x
                  = (if x \<in> set (take k is) \<and> due phase s x then phase else m_currentState s ! x)"
    by auto
  have p1: "polls s1 = polls s + k"
    using f(4) assms(2) by simp
  obtain i rest where dr: "drop k is = i # rest"
    using assms(2) by (cases "drop k is") auto
  have "transition_for e phase (i # rest) d1 s1
          = Inl (s1\<lparr>m_stopDrivingFlag := True, polls := Suc (polls s1)\<rparr>)"
    using assms(4) p1 by (simp add: stopDriving_def Let_def)
  moreover have "is = take k is @ i # rest"
    using dr append_take_drop_id [of k "is"] by simp
  ultimately have "transition_for e phase is d s
          = Inl (s1\<lparr>m_stopDrivingFlag := True, polls := Suc (polls s1)\<rparr>)"
    using transition_for_append [of e phase "take k is" "i # rest" d s] r by simp
  then show ?thesis
    using f c p1 by (simp add: setup_eq_def)
qed

lemma disable_for_eq:
  "disable_for is s = s\<lparr>trace := trace s @ map (\<lambda>i. PinMode (m_segmentPinsList s ! i) INPUT) is\<rparr>"
  by (induction "is" arbitrary: s) (simp_all add: pinMode_def)

lemma disableAllSegments_eq:
  "disableAllSegments s =
     s\<lparr>trace := trace s @ map (\<lambda>i. PinMode (m_segmentPinsList s ! i) INPUT) (segments s)\<rparr>"
  by (simp add: disableAllSegments_def disable_for_eq)

lemma enableCounterElectrode_eq:
  "enableCounterElectrode H v s =
     s\<lparr>trace := trace s @
          [AnalogWrite (m_counterElectrodePin s)
             (c_int (real_of_int (ADC_DAC_MAX_LSB H) * (v / m_supplyVoltage s))),
           Delay 50]\<rparr>"
  by (simp add: enableCounterElectrode_def prim_defs)

lemma disableCounterElectrode_eq:
  "disableCounterElectrode s = s\<lparr>trace := trace s @ [AnalogWrite (m_counterElectrodePin s) 0]\<rparr>"
  by (simp add: disableCounterElectrode_def prim_defs)

lemma hold_quiet:
  assumes "quiet_for e s (if d then 1 else 0)"
  shows "hold e d ms s =
           Inr (if d then s\<lparr>polls := Suc (polls s), trace := trace s @ [Delay ms]\<rparr> else s)"
  using assms by (auto simp: hold_def quiet_for_def stopDriving_def Let_def delay_def)

lemma hold_stop:
  assumes "d" and "irq e (polls s)"
  shows "hold e d ms s = Inl (s\<lparr>m_stopDrivingFlag := True, polls := Suc (polls s)\<rparr>)"
  using assms by (simp add: hold_def stopDriving_def Let_def)

lemma stopDriving_eq:
  "stopDriving e s =
     (m_stopDrivingFlag s \<or> irq e (polls s),
      s\<lparr>m_stopDrivingFlag := m_stopDrivingFlag s \<or> irq e (polls s), polls := Suc (polls s)\<rparr>)"
  by (cases "irq e (polls s)") (simp_all add: stopDriving_def Let_def)

lemma touched_refl: "touched phase is s (s\<lparr>m_stopDrivingFlag := f, polls := p\<rparr>)"
  by (simp add: touched_def setup_eq_def)

lemma touched_skip:
  assumes "touched phase is (s\<lparr>m_stopDrivingFlag := f, polls := p\<rparr>) s'"
  shows "touched phase (i # is) s s'"
  using assms by (simp add: touched_def setup_eq_def due_def drive_events_def) blast

lemma touched_step:
  assumes t: "touched phase is
           (s\<lparr>m_stopDrivingFlag := f, polls := p,
              trace := trace s @ [PinMode (m_segmentPinsList s ! i) OUTPUT,
                  DigitalWrite (m_segmentPinsList s ! i) (level_of (m_nextState s ! i))],
              m_currentState := (m_currentState s)[i := m_nextState s ! i]\<rparr>) s'"
    and d: "due phase s i" and n: "i \<notin> set is"
  shows "touched phase (i # is) s s'"
proof -
  let ?s4 = "s\<lparr>m_stopDrivingFlag := f, polls := p,
              trace := trace s @ [PinMode (m_segmentPinsList s ! i) OUTPUT,
                  DigitalWrite (m_segmentPinsList s ! i) (level_of (m_nextState s ! i))],
              m_currentState := (m_currentState s)[i := m_nextState s ! i]\<rparr>"
  have same: "due phase ?s4 x = due phase s x" if "x \<in> set is" for x
  proof -
    from that n have "i \<noteq> x" by auto
    then show ?thesis by (simp add: due_def)
  qed
  have ev: "drive_events phase ?s4 x = drive_events phase s x" if "x \<in> set is" for x
    using same [OF that] by (simp add: drive_events_def)
  have hd: "drive_events phase s i = [PinMode (m_segmentPinsList s ! i) OUTPUT,
                  DigitalWrite (m_segmentPinsList s ! i) (level_of (m_nextState s ! i))]"
    using d by (auto simp: drive_events_def due_def)
  from t obtain evs where tr: "trace s' = trace ?s4 @ evs"
    and evs: "\<forall>ev\<in>set evs. \<exists>j\<in>set is. due phase ?s4 j \<and> ev \<in> set (drive_events phase ?s4 j)"
    unfolding touched_def by blast
  have c: "m_currentState s' ! x = m_currentState s ! x
          \<or> (x \<in> set (i # is) \<and> due phase s x \<and> m_currentState s' ! x = phase)" for x
  proof -
    from t have "m_currentState s' ! x = m_currentState ?s4 ! x
          \<or> (x \<in> set is \<and> due phase ?s4 x \<and> m_currentState s' ! x = phase)"
      unfolding touched_def by blast
    then show ?thesis
    proof
      assume a: "m_currentState s' ! x = m_currentState ?s4 ! x"
      show ?thesis
      proof (cases "x = i \<and> i < length (m_currentState s)")
        case True
        then show ?thesis using a d by (auto simp: due_def)
      next
        case False
        then have "m_currentState ?s4 ! x = m_currentState s ! x"
          by (cases "x = i") (simp_all add: list_update_beyond)
        then show ?thesis using a by simp
      qed
    next
      assume "x \<in> set is \<and> due phase ?s4 x \<and> m_currentState s' ! x = phase"
      then show ?thesis using same by auto
    qed
  qed
  have tr': "trace s' = trace s @ (drive_events phase s i @ evs)"
    using tr hd by simp
  have evs': "\<forall>ev\<in>set (drive_events phase s i @ evs).
                \<exists>j\<in>set (i # is). due phase s j \<and> ev \<in> set (drive_events phase s j)"
    using evs d same ev by auto
  from t have "setup_eq s s'" "m_refreshSegmentNeeded s' = m_refreshSegmentNeeded s"
    "reads s' = reads s" "length (m_currentState s') = length (m_currentState s)"
    by (simp_all add: touched_def setup_eq_def)
  then show ?thesis
    unfolding touched_def using c tr' evs' by blast
qed

lemma transition_for_touched:
  assumes "distinct is"
  shows "(\<forall>s'. transition_for e phase is d s = Inl s' \<longrightarrow> touched phase is s s')
       \<and> (\<forall>d' s'. transition_for e phase is d s = Inr (d', s') \<longrightarrow> touched phase is s s')"
  using assms
proof (induction "is" arbitrary: d s)
  case Nil
  then show ?case by (simp add: touched_def setup_eq_def)
next
  case (Cons i "is")
  let ?f = "m_stopDrivingFlag s \<or> irq e (polls s)"
  let ?s1 = "s\<lparr>m_stopDrivingFlag := ?f, polls := Suc (polls s)\<rparr>"
  show ?case
  proof (cases ?f)
    case True
    then have "transition_for e phase (i # is) d s = Inl ?s1"
      by (simp add: stopDriving_eq)
    then show ?thesis
      using touched_skip [OF touched_refl] by simp
  next
    case nf: False
    show ?thesis
    proof (cases "due phase s i")
      case True
      let ?s4 = "s\<lparr>m_stopDrivingFlag := ?f, polls := Suc (polls s),
              trace := trace s @ [PinMode (m_segmentPinsList s ! i) OUTPUT,
                  DigitalWrite (m_segmentPinsList s ! i) (level_of (m_nextState s ! i))],
              m_currentState := (m_currentState s)[i := m_nextState s ! i]\<rparr>"
      have step: "transition_for e phase (i # is) d s = transition_for e phase is True ?s4"
        using True nf by (auto simp: stopDriving_eq due_def prim_defs)
      show ?thesis
        unfolding step
        using Cons.IH [of True ?s4] Cons.prems touched_step [OF _ True]
        by auto
    next
      case False
      have step: "transition_for e phase (i # is) d s = transition_for e phase is d ?s1"
        using False nf by (auto simp: stopDriving_eq due_def)
      show ?thesis
        unfolding step
        using Cons.IH [of d ?s1] Cons.prems touched_skip
        by auto
    qed
  qed
qed

lemma refresh_frame_refl: "refresh_frame s s"
  by (simp add: refresh_frame_def setup_eq_def)

lemma refresh_frame_trans:
  "refresh_frame a b \<Longrightarrow> refresh_frame b c \<Longrightarrow> refresh_frame a c"
  by (simp add: refresh_frame_def setup_eq_def)

lemma refresh_frame_world:
  "refresh_frame s (s\<lparr>m_stopDrivingFlag := f, polls := p\<rparr>)"
  "refresh_frame s (s\<lparr>trace := t\<rparr>)"
  by (simp_all add: refresh_frame_def setup_eq_def)

lemma refresh_frame_stopDriving: "refresh_frame s (snd (stopDriving e s))"
  by (simp add: stopDriving_eq refresh_frame_world)

lemma refresh_frame_hw:
  "refresh_frame s (disableAllSegments s)"
  "refresh_frame s (enableCounterElectrode H v s)"
  "refresh_frame s (disableCounterElectrode s)"
  "refresh_frame s (delay ms s)"
  by (simp_all add: disableAllSegments_eq enableCounterElectrode_eq disableCounterElectrode_eq
        delay_def refresh_frame_world)

lemma mark_keeps: "i < length xs \<Longrightarrow> xs ! i \<Longrightarrow> xs[a := True] ! i"
  by (cases "a = i") simp_all

lemma classify_for_frame:
  "(\<forall>s'. classify_for e is rc rb s = Inl s' \<longrightarrow> refresh_frame s s')
   \<and> (\<forall>rc' rb' s'. classify_for e is rc rb s = Inr (rc', rb', s') \<longrightarrow> refresh_frame s s')"
proof (induction "is" arbitrary: rc rb s)
  case Nil
  show ?case by (simp add: refresh_frame_refl)
next
  case (Cons i "is")
  show ?case
    using Cons.IH
    apply (simp add: stopDriving_eq prim_defs Let_def refresh_frame_def setup_eq_def
        split: if_splits)
    apply (auto simp: mark_keeps)
    done
qed

lemma pulse_for_frame:
  "(\<forall>s'. pulse_for e phase lv is s = Inl s' \<longrightarrow> refresh_frame s s')
   \<and> (\<forall>s'. pulse_for e phase lv is s = Inr s' \<longrightarrow> refresh_frame s s')"
proof (induction "is" arbitrary: s)
  case Nil
  show ?case by (simp add: refresh_frame_refl)
next
  case (Cons i "is")
  show ?case
    using Cons.IH
    by (simp add: stopDriving_eq prim_defs Let_def refresh_frame_def setup_eq_def
        split: if_splits)
qed

lemma recheck_for_frame:
  "(\<forall>s'. recheck_for e phase beyond retries maxr is nd s = Inl s' \<longrightarrow> refresh_frame s s')
   \<and> (\<forall>nd' s'. recheck_for e phase beyond retries maxr is nd s = Inr (nd', s')
         \<longrightarrow> refresh_frame s s')"
proof (induction "is" arbitrary: nd s)
  case Nil
  show ?case by (simp add: refresh_frame_refl)
next
  case (Cons i "is")
  show ?case
    using Cons.IH
    apply (simp add: stopDriving_eq prim_defs Let_def refresh_frame_def setup_eq_def
        split: if_splits)
    apply (auto simp: mark_keeps)
    done
qed

lemma refresh_bleach_round_frame:
  "(\<forall>s'. refresh_bleach_round H e retries s = Inl s' \<longrightarrow> refresh_frame s s')
   \<and> (\<forall>nd' s'. refresh_bleach_round H e retries s = Inr (nd', s') \<longrightarrow> refresh_frame s s')"
proof -
  let ?s1 = "snd (stopDriving e s)"
  have f1: "refresh_frame s ?s1" by (rule refresh_frame_stopDriving)
  have f2: "refresh_frame s s2"
    if "pulse_for e SEGMENT_STATE_BLEACH LOW (segments ?s1) ?s1 = Inl s2
        \<or> pulse_for e SEGMENT_STATE_BLEACH LOW (segments ?s1) ?s1 = Inr s2" for s2
    using that f1 pulse_for_frame [of e SEGMENT_STATE_BLEACH LOW "segments ?s1" ?s1]
    by (blast intro: refresh_frame_trans)
  have f4: "refresh_frame s2 (snd (stopDriving e (disableAllSegments (delay ms s2))))" for s2 ms
    using refresh_frame_hw(1,4) refresh_frame_stopDriving by (blast intro: refresh_frame_trans)
  have f5: "refresh_frame s4 s5"
    if "recheck_for e ph b retries m (segments s4) False s4 = Inl s5
        \<or> recheck_for e ph b retries m (segments s4) False s4 = Inr (nd', s5)" for s4 s5 ph b m nd'
    using that recheck_for_frame [of e ph b retries m "segments s4" False s4] by blast
  have f6: "refresh_frame s5 (delay 500 s5)" for s5
    by (rule refresh_frame_hw)
  show ?thesis
    unfolding refresh_bleach_round_def
    by (auto simp: Let_def split_beta split: sum.splits if_splits prod.splits
          intro: refresh_frame_trans [OF f2 f4] refresh_frame_trans [OF refresh_frame_trans [OF f2 f4] f5]
             refresh_frame_trans [OF refresh_frame_trans [OF refresh_frame_trans [OF f2 f4] f5] f6]
             f1 f2)
qed

lemma refresh_color_round_frame:
  "(\<forall>s'. refresh_color_round H e cl retries s = Inl s' \<longrightarrow> refresh_frame s s')
   \<and> (\<forall>nd' s'. refresh_color_round H e cl retries s = Inr (nd', s') \<longrightarrow> refresh_frame s s')"
proof -
  let ?s1 = "snd (stopDriving e s)"
  have f1: "refresh_frame s ?s1" by (rule refresh_frame_stopDriving)
  have f2: "refresh_frame s s2"
    if "pulse_for e SEGMENT_STATE_COLOR HIGH (segments ?s1) ?s1 = Inl s2
        \<or> pulse_for e SEGMENT_STATE_COLOR HIGH (segments ?s1) ?s1 = Inr s2" for s2
    using that f1 pulse_for_frame [of e SEGMENT_STATE_COLOR HIGH "segments ?s1" ?s1]
    by (blast intro: refresh_frame_trans)
  have f3: "refresh_frame s2 (snd (stopDriving e (delay ms s2)))" for s2 ms
    using refresh_frame_hw(4) refresh_frame_stopDriving by (blast intro: refresh_frame_trans)
  have f4: "refresh_frame s2 (disableAllSegments (snd (stopDriving e (delay ms s2))))" for s2 ms
    using f3 refresh_frame_hw(1) by (blast intro: refresh_frame_trans)
  have f5: "refresh_frame s4 s5"
    if "recheck_for e ph b retries m (segments s4) False s4 = Inl s5
        \<or> recheck_for e ph b retries m (segments s4) False s4 = Inr (nd', s5)" for s4 s5 ph b m nd'
    using that recheck_for_frame [of e ph b retries m "segments s4" False s4] by blast
  have f6: "refresh_frame s5 (delay 500 s5)" for s5
    by (rule refresh_frame_hw)
  show ?thesis
    unfolding refresh_color_round_def
    by (auto simp: Let_def split_beta split: sum.splits if_splits prod.splits
          intro: refresh_frame_trans [OF f2 f3] refresh_frame_trans [OF refresh_frame_trans [OF f2 f4] f5]
             refresh_frame_trans [OF refresh_frame_trans [OF refresh_frame_trans [OF f2 f4] f5] f6]
             f1 f2)
qed

lemma refresh_bleach_while_frame:
  "(\<forall>s'. refresh_bleach_while H e nd retries s = Inl s' \<longrightarrow> refresh_frame s s')
   \<and> (\<forall>s'. refresh_bleach_while H e nd retries s = Inr s' \<longrightarrow> refresh_frame s s')"
proof (induction H e nd retries s rule: refresh_bleach_while.induct)
  case (1 H e nd retries s)
  show ?case
  proof (cases "refresh_bleach_round H e retries s")
    case (Inl a)
    then show ?thesis
      using refresh_bleach_round_frame [of H e retries s]
      by (subst refresh_bleach_while.simps, subst refresh_bleach_while.simps)
         (auto simp: refresh_frame_refl)
  next
    case (Inr p)
    obtain nd' s1 where p: "p = (nd', s1)" by (cases p)
    have f: "refresh_frame s s1"
      using Inr p refresh_bleach_round_frame [of H e retries s] by blast
    show ?thesis
    proof (cases nd)
      case False
      then show ?thesis
        by (subst refresh_bleach_while.simps, subst refresh_bleach_while.simps)
           (simp add: refresh_frame_refl)
    next
      case True
      have step: "refresh_bleach_while H e nd retries s
                    = refresh_bleach_while H e nd' (retries + 1) s1"
        using True Inr p by (subst refresh_bleach_while.simps) simp
      show ?thesis
        unfolding step using "1.IH" [of p nd' s1] True Inr p f
        by (blast intro: refresh_frame_trans)
    qed
  qed
qed

lemma refresh_color_while_frame:
  "(\<forall>s'. refresh_color_while H e cl nd retries s = Inl s' \<longrightarrow> refresh_frame s s')
   \<and> (\<forall>s'. refresh_color_while H e cl nd retries s = Inr s' \<longrightarrow> refresh_frame s s')"
proof (induction H e cl nd retries s rule: refresh_color_while.induct)
  case (1 H e cl nd retries s)
  show ?case
  proof (cases "refresh_color_round H e cl retries s")
    case (Inl a)
    then show ?thesis
      using refresh_color_round_frame [of H e cl retries s]
      by (subst refresh_color_while.simps, subst refresh_color_while.simps)
         (auto simp: refresh_frame_refl)
  next
    case (Inr p)
    obtain nd' s1 where p: "p = (nd', s1)" by (cases p)
    have f: "refresh_frame s s1"
      using Inr p refresh_color_round_frame [of H e cl retries s] by blast
    show ?thesis
    proof (cases nd)
      case False
      then show ?thesis
        by (subst refresh_color_while.simps, subst refresh_color_while.simps)
           (simp add: refresh_frame_refl)
    next
      case True
      have step: "refresh_color_while H e cl nd retries s
                    = refresh_color_while H e cl nd' (retries + 1) s1"
        using True Inr p by (subst refresh_color_while.simps) simp
      show ?thesis
        unfolding step using "1.IH" [of p nd' s1] True Inr p f
        by (blast intro: refresh_frame_trans)
    qed
  qed
qed

lemma refreshDisplay_frame: "refresh_frame s (snd (refreshDisplay H e s))"
proof -
  let ?s1 = "snd (stopDriving e s)"
  let ?s3 = "disableAllSegments (enableCounterElectrode H (m_supplyVoltage ?s1 / 2) ?s1)"
  have f1: "refresh_frame s ?s1" by (rule refresh_frame_stopDriving)
  have f3: "refresh_frame s ?s3"
    using f1 refresh_frame_hw(1,2) by (blast intro: refresh_frame_trans)
  have f4: "refresh_frame s s4"
    if "classify_for e (segments ?s3) False False ?s3 = Inl s4
        \<or> classify_for e (segments ?s3) False False ?s3 = Inr (rc, rb, s4)" for s4 rc rb
    using that f3 classify_for_frame [of e "segments ?s3" False False ?s3]
    by (blast intro: refresh_frame_trans)
  have f5: "refresh_frame s4 (snd (stopDriving e s4))" for s4
    by (rule refresh_frame_stopDriving)
  have f6: "refresh_frame s5 (enableCounterElectrode H v s5)" for s5 v
    by (rule refresh_frame_hw)
  have f7: "refresh_frame s6 s7"
    if "refresh_bleach_while H e rb 0 s6 = Inl s7 \<or> refresh_bleach_while H e rb 0 s6 = Inr s7"
    for s6 s7 rb
    using that refresh_bleach_while_frame [of H e rb 0 s6] by blast
  have f9: "refresh_frame s8 s9"
    if "refresh_color_while H e cl rc 0 s8 = Inl s9 \<or> refresh_color_while H e cl rc 0 s8 = Inr s9"
    for s8 s9 rc cl
    using that refresh_color_while_frame [of H e cl rc 0 s8] by blast
  have f10: "refresh_frame s9 (disableCounterElectrode s9)" for s9
    by (rule refresh_frame_hw)
  note tr = refresh_frame_trans
  show ?thesis
    unfolding refreshDisplay_def
    by (auto simp: Let_def split_beta split: sum.splits if_splits prod.splits
          intro: f1 f4 tr [OF f4 f5] tr [OF tr [OF tr [OF f4 f5] f6] f7]
            tr [OF tr [OF tr [OF tr [OF tr [OF f4 f5] f6] f7] f6] f9]
            tr [OF tr [OF tr [OF tr [OF tr [OF tr [OF f4 f5] f6] f7] f6] f9] f10])
qed

lemma segments_facts:
  "distinct (segments s)" "length (segments s) = nat (m_numberOfSegments s)"
  "i \<in> set (segments s) \<longleftrightarrow> i < nat (m_numberOfSegments s)"
  by (simp_all add: segments_def)

lemma setup_eq_segments: "setup_eq s s' \<Longrightarrow> segments s' = segments s"
  by (simp add: setup_eq_def segments_def)

lemma well_formed_bounds:
  "well_formed s \<Longrightarrow> \<forall>i\<in>set (segments s). i < length (m_currentState s)"
  by (auto simp: well_formed_def segments_def)

lemma transition_for_setup:
  assumes "transition_for e phase (segments s) d s = Inr (d', s')"
  shows "setup_eq s s'"
proof -
  have "touched phase (segments s) s s'"
    using assms transition_for_touched [OF segments_facts(1), of e phase s d] by blast
  then show ?thesis by (simp add: touched_def)
qed

lemma bleachPhase_core:
  "bleachPhase H e s =
     phase_core e SEGMENT_STATE_BLEACH (bleachingTime (m_cfg s))
       (enableCounterElectrode H (bleachingVoltage (m_cfg s)) s)"
proof -
  let ?s1 = "enableCounterElectrode H (bleachingVoltage (m_cfg s)) s"
  show ?thesis
  proof (cases "transition_for e SEGMENT_STATE_BLEACH (segments ?s1) False ?s1")
    case (Inl a)
    then show ?thesis by (simp add: bleachPhase_def phase_core_def)
  next
    case (Inr p)
    obtain d s2 where p: "p = (d, s2)" by (cases p)
    have "setup_eq ?s1 s2"
      using Inr p transition_for_setup by blast
    then have "m_cfg s2 = m_cfg s"
      by (simp add: setup_eq_def enableCounterElectrode_eq)
    then show ?thesis
      using Inr p by (simp add: bleachPhase_def phase_core_def)
  qed
qed

lemma colorPhase_core:
  "colorPhase H e s =
     (case phase_core e SEGMENT_STATE_COLOR (coloringTime (m_cfg s))
             (enableCounterElectrode H (m_supplyVoltage s - coloringVoltage (m_cfg s)) s) of
        Inl a \<Rightarrow> Inl a
      | Inr s3 \<Rightarrow> Inr (disableCounterElectrode s3))"
proof -
  let ?s1 = "enableCounterElectrode H (m_supplyVoltage s - coloringVoltage (m_cfg s)) s"
  show ?thesis
  proof (cases "transition_for e SEGMENT_STATE_COLOR (segments ?s1) False ?s1")
    case (Inl a)
    then show ?thesis by (simp add: colorPhase_def phase_core_def)
  next
    case (Inr p)
    obtain d s2 where p: "p = (d, s2)" by (cases p)
    have "setup_eq ?s1 s2"
      using Inr p transition_for_setup by blast
    then have "m_cfg s2 = m_cfg s"
      by (simp add: setup_eq_def enableCounterElectrode_eq)
    then show ?thesis
      using Inr p by (simp add: colorPhase_def phase_core_def split: sum.splits)
  qed
qed

lemma phase_core_quiet:
  assumes wf: "well_formed s"
    and q: "quiet_for e s (length (segments s) + hold_polls phase s)"
  shows "\<exists>s'. phase_core e phase ms s = Inr s'
           \<and> setup_eq s s'
           \<and> m_refreshSegmentNeeded s' = m_refreshSegmentNeeded s
           \<and> m_stopDrivingFlag s' = False
           \<and> polls s' = polls s + length (segments s) + hold_polls phase s
           \<and> reads s' = reads s
           \<and> length (m_currentState s') = length (m_currentState s)
           \<and> (\<forall>x. m_currentState s' ! x
                     = (if x \<in> set (segments s) \<and> due phase s x then phase
                        else m_currentState s ! x))
           \<and> trace s' = trace s @ concat (map (drive_events phase s) (segments s))
                 @ (if hold_polls phase s = 1 then [Delay ms] else []) @ float_events s"
proof -
  have q1: "quiet_for e s (length (segments s))"
    using q by (simp add: quiet_for_def)
  from transition_for_quiet [OF q1 segments_facts(1) well_formed_bounds [OF wf], of phase False]
  obtain d' s2 where r: "transition_for e phase (segments s) False s = Inr (d', s2)"
    and d: "d' = (\<exists>i\<in>set (segments s). due phase s i)"
    and f: "setup_eq s s2" "m_refreshSegmentNeeded s2 = m_refreshSegmentNeeded s"
      "m_stopDrivingFlag s2 = False" "polls s2 = polls s + length (segments s)"
      "reads s2 = reads s" "length (m_currentState s2) = length (m_currentState s)"
    and c: "\<forall>x. m_currentState s2 ! x
                  = (if x \<in> set (segments s) \<and> due phase s x then phase else m_currentState s ! x)"
    and t: "trace s2 = trace s @ concat (map (drive_events phase s) (segments s))"
    by auto
  have hp: "hold_polls phase s = (if d' then 1 else 0)"
    using d by (simp add: hold_polls_def)
  have q2: "quiet_for e s2 (if d' then 1 else 0)"
    using q f(3,4) hp by (auto simp: quiet_for_def)
  let ?s3 = "if d' then s2\<lparr>polls := Suc (polls s2), trace := trace s2 @ [Delay ms]\<rparr> else s2"
  have r2: "phase_core e phase ms s = Inr (disableAllSegments ?s3)"
    using r hold_quiet [OF q2, of ms] by (simp add: phase_core_def)
  have seg: "segments ?s3 = segments s" "m_segmentPinsList ?s3 = m_segmentPinsList s"
    using f(1) by (auto simp: setup_eq_def segments_def)
  show ?thesis
    unfolding r2 using f c t hp seg
    by (auto simp: disableAllSegments_eq setup_eq_def float_events_def)
qed

lemma phase_core_stop_loop:
  assumes wf: "well_formed s" and nf: "\<not> m_stopDrivingFlag s"
    and k: "k < length (segments s)"
    and first: "\<forall>j<k. \<not> irq e (polls s + j)" "irq e (polls s + k)"
  shows "\<exists>s'. phase_core e phase ms s = Inl s'
           \<and> setup_eq s s'
           \<and> m_refreshSegmentNeeded s' = m_refreshSegmentNeeded s
           \<and> m_stopDrivingFlag s' = True
           \<and> polls s' = polls s + Suc k
           \<and> length (m_currentState s') = length (m_currentState s)
           \<and> (\<forall>x. m_currentState s' ! x
                     = (if x < k \<and> due phase s x then phase else m_currentState s ! x))"
proof -
  have tk: "x \<in> set (take k (segments s)) \<longleftrightarrow> x < k" for x
    using k by (auto simp: segments_def take_upt)
  from transition_for_stop [OF nf k first segments_facts(1) well_formed_bounds [OF wf], of phase False]
  show ?thesis
    unfolding tk by (auto simp: phase_core_def)
qed

lemma phase_core_stop_hold:
  assumes wf: "well_formed s" and nf: "\<not> m_stopDrivingFlag s"
    and h: "hold_polls phase s = 1"
    and first: "\<forall>j<length (segments s). \<not> irq e (polls s + j)"
      "irq e (polls s + length (segments s))"
  shows "\<exists>s'. phase_core e phase ms s = Inl s'
           \<and> setup_eq s s'
           \<and> m_refreshSegmentNeeded s' = m_refreshSegmentNeeded s
           \<and> m_stopDrivingFlag s' = True
           \<and> polls s' = polls s + Suc (length (segments s))
           \<and> length (m_currentState s') = length (m_currentState s)
           \<and> (\<forall>x. m_currentState s' ! x
                     = (if x \<in> set (segments s) \<and> due phase s x then phase
                        else m_currentState s ! x))"
proof -
  have q1: "quiet_for e s (length (segments s))"
    using nf first(1) by (simp add: quiet_for_def)
  from transition_for_quiet [OF q1 segments_facts(1) well_formed_bounds [OF wf], of phase False]
  obtain d' s2 where r: "transition_for e phase (segments s) False s = Inr (d', s2)"
    and d: "d' = (\<exists>i\<in>set (segments s). due phase s i)"
    and f: "setup_eq s s2" "m_refreshSegmentNeeded s2 = m_refreshSegmentNeeded s"
      "m_stopDrivingFlag s2 = False" "polls s2 = polls s + length (segments s)"
      "reads s2 = reads s" "length (m_currentState s2) = length (m_currentState s)"
    and c: "\<forall>x. m_currentState s2 ! x
                  = (if x \<in> set (segments s) \<and> due phase s x then phase else m_currentState s ! x)"
    by auto
  have d': "d'"
    using d h by (simp add: hold_polls_def split: if_splits)
  have "irq e (polls s2)"
    using first(2) f(4) by simp
  from hold_stop [OF d' this, of ms]
  have "phase_core e phase ms s = Inl (s2\<lparr>m_stopDrivingFlag := True, polls := Suc (polls s2)\<rparr>)"
    using r by (simp add: phase_core_def)
  then show ?thesis
    using f c by (simp add: setup_eq_def)
qed

lemma stopDriving_calm:
  "calm e \<Longrightarrow> \<not> m_stopDrivingFlag s \<Longrightarrow> stopDriving e s = (False, s\<lparr>polls := Suc (polls s)\<rparr>)"
  by (simp add: calm_def stopDriving_def Let_def)

lemma calm_quiet_for: "calm e \<Longrightarrow> \<not> m_stopDrivingFlag s \<Longrightarrow> quiet_for e s n"
  by (simp add: calm_def quiet_for_def)

lemma ex_less_Suc_shift: "(\<exists>j<Suc n. P j) \<longleftrightarrow> P 0 \<or> (\<exists>j<n. P (Suc j))"
  by (metis less_Suc_eq_0_disj)

lemma mark_nth: "x < length xs \<Longrightarrow> xs[i := True] ! x \<longleftrightarrow> xs ! x \<or> i = x"
  by (cases "i = x") simp_all

lemma pulse_for_calm:
  assumes "calm e" and "\<not> m_stopDrivingFlag s"
  shows "pulse_for e phase lv is s =
           Inr (s\<lparr>polls := polls s + length is,
                  trace := trace s @ concat (map (pulse_events phase lv s) is)\<rparr>)"
  using assms
proof (induction "is" arbitrary: s)
  case Nil
  then show ?case by simp
next
  case (Cons i "is")
  have ev: "pulse_events phase lv (s\<lparr>polls := p, trace := t\<rparr>) = pulse_events phase lv s" for p t
    by (rule ext) (simp add: pulse_events_def)
  show ?case
    using Cons.prems
    by (simp add: stopDriving_calm Cons.IH prim_defs ev pulse_events_def Let_def cong: if_cong)
qed

lemma classify_for_calm:
  assumes "calm e" and "\<not> m_stopDrivingFlag s"
  shows "\<exists>rc' rb' s'. classify_for e is rc rb s = Inr (rc', rb', s')
           \<and> \<not> m_stopDrivingFlag s'
           \<and> reads s' = reads s + length is
           \<and> rc' = (rc \<or> (\<exists>j<length is.
                      low_color s (is ! j) (adc e (reads s + j) (m_segmentPinsList s ! (is ! j)))))
           \<and> rb' = (rb \<or> (\<exists>j<length is.
                      high_bleach s (is ! j) (adc e (reads s + j) (m_segmentPinsList s ! (is ! j)))))
           \<and> (\<forall>x<length (m_refreshSegmentNeeded s).
                 m_refreshSegmentNeeded s' ! x
                   = (m_refreshSegmentNeeded s ! x
                      \<or> (\<exists>j<length is. is ! j = x
                           \<and> (low_color s x (adc e (reads s + j) (m_segmentPinsList s ! x))
                              \<or> high_bleach s x (adc e (reads s + j) (m_segmentPinsList s ! x))))))"
  using assms
proof (induction "is" arbitrary: rc rb s)
  case Nil
  then show ?case by simp
next
  case (Cons i "is")
  let ?a = "adc e (reads s) (m_segmentPinsList s ! i)"
  let ?s3 = "s\<lparr>polls := Suc (polls s),
               trace := trace s @ [PinMode (m_segmentPinsList s ! i) INPUT,
                                   AnalogRead (m_segmentPinsList s ! i)],
               reads := Suc (reads s)\<rparr>"
  let ?m = "?s3\<lparr>m_refreshSegmentNeeded := (m_refreshSegmentNeeded s)[i := True]\<rparr>"
  have lc: "low_color ?s3 = low_color s" "low_color ?m = low_color s"
    and hb: "high_bleach ?s3 = high_bleach s" "high_bleach ?m = high_bleach s"
    by (simp_all add: low_color_def high_bleach_def fun_eq_iff)
  have excl: "\<not> (low_color s i ?a \<and> high_bleach s i ?a)"
    by (auto simp: low_color_def high_bleach_def)
  have step: "classify_for e (i # is) rc rb s =
      (if low_color s i ?a then classify_for e is True rb ?m
       else if high_bleach s i ?a then classify_for e is rc True ?m
       else classify_for e is rc rb ?s3)"
    using Cons.prems
    by (simp add: stopDriving_calm prim_defs low_color_def high_bleach_def Let_def)
  have nf: "\<not> m_stopDrivingFlag ?s3" "\<not> m_stopDrivingFlag ?m"
    using Cons.prems by simp_all
  show ?case
  proof (cases "low_color s i ?a \<or> high_bleach s i ?a")
    case False
    from Cons.IH [OF Cons.prems(1) nf(1), of rc rb]
    show ?thesis
      unfolding step lc hb using False
      by (auto simp: ex_less_Suc_shift)
  next
    case True
    let ?rc = "rc \<or> low_color s i ?a" and ?rb = "rb \<or> high_bleach s i ?a"
    have step': "classify_for e (i # is) rc rb s = classify_for e is ?rc ?rb ?m"
      using True excl unfolding step by auto
    from Cons.IH [OF Cons.prems(1) nf(2), of ?rc ?rb]
    show ?thesis
      unfolding step' lc hb using True
      by (auto simp: ex_less_Suc_shift mark_nth)
  qed
qed

lemma setup_eq_refl: "setup_eq s s"
  by (simp add: setup_eq_def)

lemma setup_eq_trans: "setup_eq a b \<Longrightarrow> setup_eq b c \<Longrightarrow> setup_eq a c"
  by (simp add: setup_eq_def)

lemma recheck_for_step:
  assumes "calm e" and "\<not> m_stopDrivingFlag s"
  shows "recheck_for e phase beyond retries maxr (j # is) nd s =
     (if m_currentState s ! j = phase \<and> retries < maxr
      then
        (if beyond (s\<lparr>polls := Suc (polls s),
                       trace := trace s @ [PinMode (m_segmentPinsList s ! j) INPUT,
                                           AnalogRead (m_segmentPinsList s ! j)],
                       reads := Suc (reads s)\<rparr>)
                   (adc e (reads s) (m_segmentPinsList s ! j))
         then recheck_for e phase beyond retries maxr is True
                (s\<lparr>polls := Suc (polls s),
                   trace := trace s @ [PinMode (m_segmentPinsList s ! j) INPUT,
                                       AnalogRead (m_segmentPinsList s ! j)],
                   reads := Suc (reads s),
                   m_refreshSegmentNeeded := (m_refreshSegmentNeeded s)[j := True]\<rparr>)
         else recheck_for e phase beyond retries maxr is nd
                (s\<lparr>polls := Suc (polls s),
                   trace := trace s @ [PinMode (m_segmentPinsList s ! j) INPUT,
                                       AnalogRead (m_segmentPinsList s ! j)],
                   reads := Suc (reads s)\<rparr>))
      else recheck_for e phase beyond retries maxr is nd (s\<lparr>polls := Suc (polls s)\<rparr>))"
  using assms by (simp add: stopDriving_calm prim_defs Let_def)

lemma recheck_for_calm:
  assumes "calm e" and "\<not> m_stopDrivingFlag s"
  shows "\<exists>nd' s'. recheck_for e phase beyond retries maxr is nd s = Inr (nd', s')
           \<and> \<not> m_stopDrivingFlag s'
           \<and> (nd \<longrightarrow> nd')
           \<and> (\<not> retries < maxr \<longrightarrow> nd' = nd
                  \<and> m_refreshSegmentNeeded s' = m_refreshSegmentNeeded s \<and> trace s' = trace s)
           \<and> count_list (trace s') (DigitalWrite p l) = count_list (trace s) (DigitalWrite p l)"
  using assms
proof (induction "is" arbitrary: nd s)
  case Nil
  then show ?case by simp
next
  case (Cons j "is")
  let ?a = "s\<lparr>polls := Suc (polls s)\<rparr>"
  let ?b = "s\<lparr>polls := Suc (polls s),
               trace := trace s @ [PinMode (m_segmentPinsList s ! j) INPUT,
                                   AnalogRead (m_segmentPinsList s ! j)],
               reads := Suc (reads s)\<rparr>"
  let ?c = "s\<lparr>polls := Suc (polls s),
               trace := trace s @ [PinMode (m_segmentPinsList s ! j) INPUT,
                                   AnalogRead (m_segmentPinsList s ! j)],
               reads := Suc (reads s),
               m_refreshSegmentNeeded := (m_refreshSegmentNeeded s)[j := True]\<rparr>"
  show ?case
    unfolding recheck_for_step [OF Cons.prems]
    using Cons.IH [OF Cons.prems(1), of ?a nd] Cons.IH [OF Cons.prems(1), of ?b nd]
      Cons.IH [OF Cons.prems(1), of ?c True] Cons.prems(2)
    by (auto split: if_splits)
qed

lemma recheck_for_marks:
  assumes "calm e" and "\<not> m_stopDrivingFlag s"
    and "retries < maxr" and "i \<in> set is" and "i < length (m_refreshSegmentNeeded s)"
    and "m_currentState s ! i = phase"
    and "\<forall>k s''. setup_eq s s'' \<longrightarrow> beyond s'' (adc e k (m_segmentPinsList s ! i))"
    and "recheck_for e phase beyond retries maxr is nd s = Inr (nd', s')"
  shows "nd' \<and> m_refreshSegmentNeeded s' ! i"
  using assms
proof (induction "is" arbitrary: nd s)
  case Nil
  then show ?case by simp
next
  case (Cons j "is")
  let ?a = "s\<lparr>polls := Suc (polls s)\<rparr>"
  let ?b = "s\<lparr>polls := Suc (polls s),
               trace := trace s @ [PinMode (m_segmentPinsList s ! j) INPUT,
                                   AnalogRead (m_segmentPinsList s ! j)],
               reads := Suc (reads s)\<rparr>"
  let ?c = "s\<lparr>polls := Suc (polls s),
               trace := trace s @ [PinMode (m_segmentPinsList s ! j) INPUT,
                                   AnalogRead (m_segmentPinsList s ! j)],
               reads := Suc (reads s),
               m_refreshSegmentNeeded := (m_refreshSegmentNeeded s)[j := True]\<rparr>"
  have se: "setup_eq s ?a" "setup_eq s ?b" "setup_eq s ?c"
    by (simp_all add: setup_eq_def)
  have by_s: "beyond s'' (adc e k (m_segmentPinsList s ! i))"
    if "setup_eq ?a s'' \<or> setup_eq ?b s'' \<or> setup_eq ?c s''" for s'' k
    using that Cons.prems(7) se by (blast intro: setup_eq_trans)
  note run = Cons.prems(8) [unfolded recheck_for_step [OF Cons.prems(1,2)]]
  show ?case
  proof (cases "j = i")
    case True
    have b: "beyond ?b (adc e (reads s) (m_segmentPinsList s ! j))"
      using True Cons.prems(7) se(2) by blast
    from run True Cons.prems(3,6) b
    have r: "recheck_for e phase beyond retries maxr is True ?c = Inr (nd', s')"
      by simp
    have "m_refreshSegmentNeeded ?c ! i" "i < length (m_refreshSegmentNeeded ?c)"
      using True Cons.prems(5) by simp_all
    moreover have "refresh_frame ?c s'"
      using r recheck_for_frame by blast
    ultimately have "m_refreshSegmentNeeded s' ! i"
      unfolding refresh_frame_def by blast
    moreover have "nd'"
      using r recheck_for_calm [OF Cons.prems(1), of ?c phase beyond retries maxr "is" True]
        Cons.prems(2) by auto
    ultimately show ?thesis by simp
  next
    case False
    then have mem: "i \<in> set is"
      using Cons.prems(4) by simp
    have ih: "nd' \<and> m_refreshSegmentNeeded s' ! i"
      if "recheck_for e phase beyond retries maxr is nd1 s1 = Inr (nd', s')"
        and "s1 = ?a \<or> s1 = ?b \<or> s1 = ?c" for nd1 s1
    proof -
      have "\<not> m_stopDrivingFlag s1" "i < length (m_refreshSegmentNeeded s1)"
        "m_currentState s1 ! i = phase" "m_segmentPinsList s1 = m_segmentPinsList s"
        using that(2) Cons.prems(2,5,6) by auto
      moreover have "\<forall>k s''. setup_eq s1 s'' \<longrightarrow> beyond s'' (adc e k (m_segmentPinsList s1 ! i))"
        using that(2) by_s \<open>m_segmentPinsList s1 = m_segmentPinsList s\<close> by auto
      ultimately show ?thesis
        using Cons.IH [OF Cons.prems(1) _ Cons.prems(3) mem _ _ _ that(1)] by blast
    qed
    let ?v = "adc e (reads s) (m_segmentPinsList s ! j)"
    consider (skip) "\<not> (m_currentState s ! j = phase \<and> retries < maxr)"
      | (mark) "m_currentState s ! j = phase \<and> retries < maxr" "beyond ?b ?v"
      | (pass) "m_currentState s ! j = phase \<and> retries < maxr" "\<not> beyond ?b ?v"
      by blast
    then show ?thesis
    proof cases
      case skip
      with run have "recheck_for e phase beyond retries maxr is nd ?a = Inr (nd', s')"
        by simp
      then show ?thesis using ih by blast
    next
      case mark
      with run have "recheck_for e phase beyond retries maxr is True ?c = Inr (nd', s')"
        by simp
      then show ?thesis using ih by blast
    next
      case pass
      with run have "recheck_for e phase beyond retries maxr is nd ?b = Inr (nd', s')"
        by simp
      then show ?thesis using ih by blast
    qed
  qed
qed

lemma recheck_for_clear:
  assumes "calm e" and "\<not> m_stopDrivingFlag s"
    and "i < length (m_refreshSegmentNeeded s)" and "\<not> m_refreshSegmentNeeded s ! i"
    and "\<forall>k s''. setup_eq s s'' \<longrightarrow> \<not> beyond s'' (adc e k (m_segmentPinsList s ! i))"
    and "recheck_for e phase beyond retries maxr is nd s = Inr (nd', s')"
  shows "\<not> m_refreshSegmentNeeded s' ! i"
  using assms
proof (induction "is" arbitrary: nd s)
  case Nil
  then show ?case by simp
next
  case (Cons j "is")
  let ?a = "s\<lparr>polls := Suc (polls s)\<rparr>"
  let ?b = "s\<lparr>polls := Suc (polls s),
               trace := trace s @ [PinMode (m_segmentPinsList s ! j) INPUT,
                                   AnalogRead (m_segmentPinsList s ! j)],
               reads := Suc (reads s)\<rparr>"
  let ?c = "s\<lparr>polls := Suc (polls s),
               trace := trace s @ [PinMode (m_segmentPinsList s ! j) INPUT,
                                   AnalogRead (m_segmentPinsList s ! j)],
               reads := Suc (reads s),
               m_refreshSegmentNeeded := (m_refreshSegmentNeeded s)[j := True]\<rparr>"
  have se: "setup_eq s ?a" "setup_eq s ?b" "setup_eq s ?c"
    by (simp_all add: setup_eq_def)
  have by_s: "\<not> beyond s'' (adc e k (m_segmentPinsList s ! i))"
    if "setup_eq ?a s'' \<or> setup_eq ?b s'' \<or> setup_eq ?c s'' \<or> s'' = ?b" for s'' k
    using that Cons.prems(5) se by (blast intro: setup_eq_trans)
  note run = Cons.prems(6) [unfolded recheck_for_step [OF Cons.prems(1,2)]]
  have ih: "\<not> m_refreshSegmentNeeded s' ! i"
    if "recheck_for e phase beyond retries maxr is nd1 s1 = Inr (nd', s')"
      and "s1 = ?a \<or> s1 = ?b \<or> (s1 = ?c \<and> j \<noteq> i)" for nd1 s1
  proof -
    have "\<not> m_stopDrivingFlag s1" "i < length (m_refreshSegmentNeeded s1)"
      "\<not> m_refreshSegmentNeeded s1 ! i" "m_segmentPinsList s1 = m_segmentPinsList s"
      using that(2) Cons.prems(2,3,4) by auto
    moreover have "\<forall>k s''. setup_eq s1 s'' \<longrightarrow> \<not> beyond s'' (adc e k (m_segmentPinsList s1 ! i))"
      using that(2) by_s \<open>m_segmentPinsList s1 = m_segmentPinsList s\<close> by auto
    ultimately show ?thesis
      using Cons.IH [OF Cons.prems(1) _ _ _ _ that(1)] by blast
  qed
  let ?v = "adc e (reads s) (m_segmentPinsList s ! j)"
  have nb: "j = i \<Longrightarrow> \<not> beyond ?b ?v"
    using by_s by blast
  consider (skip) "\<not> (m_currentState s ! j = phase \<and> retries < maxr)"
    | (mark) "m_currentState s ! j = phase \<and> retries < maxr" "beyond ?b ?v"
    | (pass) "m_currentState s ! j = phase \<and> retries < maxr" "\<not> beyond ?b ?v"
    by blast
  then show ?case
  proof cases
    case skip
    with run have "recheck_for e phase beyond retries maxr is nd ?a = Inr (nd', s')"
      by simp
    then show ?thesis using ih by blast
  next
    case mark
    with run have "recheck_for e phase beyond retries maxr is True ?c = Inr (nd', s')"
      by simp
    moreover have "j \<noteq> i" using mark(2) nb by blast
    ultimately show ?thesis using ih by blast
  next
    case pass
    with run have "recheck_for e phase beyond retries maxr is nd ?b = Inr (nd', s')"
      by simp
    then show ?thesis using ih by blast
  qed
qed

lemma count_pulse_events_other:
  assumes "\<forall>j\<in>set is. m_segmentPinsList s ! j \<noteq> p"
  shows "count_list (concat (map (pulse_events phase lv s) is)) (DigitalWrite p l) = 0"
  using assms by (induction "is") (simp_all add: pulse_events_def)

lemma count_pulse_events:
  assumes "distinct (map (\<lambda>j. m_segmentPinsList s ! j) is)" and "i \<in> set is"
  shows "count_list (concat (map (pulse_events phase lv s) is))
            (DigitalWrite (m_segmentPinsList s ! i) l)
           = (if l = lv \<and> m_currentState s ! i = phase \<and> m_refreshSegmentNeeded s ! i
              then 1 else 0)"
  using assms
proof (induction "is")
  case Nil
  then show ?case by simp
next
  case (Cons j "is")
  show ?case
  proof (cases "j = i")
    case True
    have "m_segmentPinsList s ! i \<notin> (\<lambda>k. m_segmentPinsList s ! k) ` set is"
      using Cons.prems(1) True by simp
    then have "\<forall>k\<in>set is. m_segmentPinsList s ! k \<noteq> m_segmentPinsList s ! i"
      by (metis imageI)
    from count_pulse_events_other [OF this, of phase lv l] True
    show ?thesis by (simp add: pulse_events_def [of phase lv s i])
  next
    case False
    then have "i \<in> set is" "m_segmentPinsList s ! j \<noteq> m_segmentPinsList s ! i"
      using Cons.prems by auto
    then show ?thesis
      using Cons.IH Cons.prems(1) by (simp add: pulse_events_def [of phase lv s j])
  qed
qed

lemma pulse_events_polls: "pulse_events phase lv (s\<lparr>polls := p\<rparr>) = pulse_events phase lv s"
  by (rule ext) (simp add: pulse_events_def)

lemma refresh_bleach_round_calm:
  assumes "calm e" and "\<not> m_stopDrivingFlag s"
  shows "refresh_bleach_round H e retries s =
           round_core e SEGMENT_STATE_BLEACH LOW (\<lambda>s a. real_of_int a > m_refreshBleachLimitL s)
             retries (MAX_REFRESH_RETRIES H) (refreshBleachPulseTime (m_cfg s)) s"
proof -
  have ord: "s\<lparr>trace := t, polls := n\<rparr> = s\<lparr>polls := n, trace := t\<rparr>" for t n
    by (cases s) simp
  show ?thesis
    using assms
    by (simp add: refresh_bleach_round_def round_core_def after_pulses_def stopDriving_calm
          pulse_for_calm disableAllSegments_eq delay_def segments_def float_events_def
          pulse_events_polls ord)
qed

lemma refresh_color_round_calm:
  assumes "calm e" and "\<not> m_stopDrivingFlag s"
  shows "refresh_color_round H e cl retries s =
           round_core e SEGMENT_STATE_COLOR HIGH (\<lambda>s a. real_of_int a < cl)
             retries (MAX_REFRESH_RETRIES H) (refreshColorPulseTime (m_cfg s)) s"
  using assms
  by (simp add: refresh_color_round_def round_core_def after_pulses_def stopDriving_calm
        pulse_for_calm disableAllSegments_eq delay_def segments_def float_events_def
        pulse_events_polls)

lemma after_pulses_facts:
  "refresh_frame s (after_pulses phase lv ms s)"
  "setup_eq s (after_pulses phase lv ms s)"
  "m_stopDrivingFlag (after_pulses phase lv ms s) = m_stopDrivingFlag s"
  "m_refreshSegmentNeeded (after_pulses phase lv ms s) = m_refreshSegmentNeeded s"
  "m_currentState (after_pulses phase lv ms s) = m_currentState s"
  "m_segmentPinsList (after_pulses phase lv ms s) = m_segmentPinsList s"
  "segments (after_pulses phase lv ms s) = segments s"
  by (simp_all add: after_pulses_def refresh_frame_def setup_eq_def segments_def)

lemma count_float_events: "count_list (float_events s) (DigitalWrite p l) = 0"
  by (simp add: float_events_def count_list_0_iff image_iff)

lemma round_core_calm:
  assumes "calm e" and "\<not> m_stopDrivingFlag s"
  shows "\<exists>nd' s'. round_core e phase lv beyond retries maxr ms s = Inr (nd', s')
           \<and> \<not> m_stopDrivingFlag s'
           \<and> refresh_frame s s'
           \<and> (nd' \<longrightarrow> retries < maxr)
           \<and> count_list (trace s') (DigitalWrite p l)
                = count_list (trace s) (DigitalWrite p l)
                  + count_list (concat (map (pulse_events phase lv s) (segments s)))
                      (DigitalWrite p l)"
proof -
  let ?s1 = "after_pulses phase lv ms s"
  have nf: "\<not> m_stopDrivingFlag ?s1"
    using assms(2) by (simp add: after_pulses_facts)
  from recheck_for_calm [OF assms(1) nf, of phase beyond retries maxr "segments s" False p l]
  obtain nd' s5 where r: "recheck_for e phase beyond retries maxr (segments s) False ?s1 = Inr (nd', s5)"
    and f: "\<not> m_stopDrivingFlag s5"
    and c: "count_list (trace s5) (DigitalWrite p l) = count_list (trace ?s1) (DigitalWrite p l)"
    by blast
  have fr: "refresh_frame s s5"
    using r recheck_for_frame after_pulses_facts(1) by (blast intro: refresh_frame_trans)
  have nd: "nd' \<longrightarrow> retries < maxr"
    using recheck_for_needed [OF r] by simp
  have c1: "count_list (trace ?s1) (DigitalWrite p l)
              = count_list (trace s) (DigitalWrite p l)
                  + count_list (concat (map (pulse_events phase lv s) (segments s)))
                      (DigitalWrite p l)"
    by (simp add: after_pulses_def count_float_events)
  have "round_core e phase lv beyond retries maxr ms s = Inr (nd', delay 500 s5)"
    using r by (simp add: round_core_def)
  moreover have "refresh_frame s (delay 500 s5)"
    using fr refresh_frame_hw(4) by (blast intro: refresh_frame_trans)
  moreover have "count_list (trace (delay 500 s5)) (DigitalWrite p l)
                   = count_list (trace s5) (DigitalWrite p l)"
    by (simp add: delay_def)
  ultimately show ?thesis
    using f nd c c1 by (simp add: delay_def)
qed

lemma round_core_marks:
  assumes "calm e" and "\<not> m_stopDrivingFlag s"
    and "retries < maxr" and "i \<in> set (segments s)" and "i < length (m_refreshSegmentNeeded s)"
    and "m_currentState s ! i = phase"
    and "\<forall>k s''. setup_eq s s'' \<longrightarrow> beyond s'' (adc e k (m_segmentPinsList s ! i))"
    and "round_core e phase lv beyond retries maxr ms s = Inr (nd', s')"
  shows "nd' \<and> m_refreshSegmentNeeded s' ! i"
proof -
  let ?s1 = "after_pulses phase lv ms s"
  from assms(8) obtain s5
    where r: "recheck_for e phase beyond retries maxr (segments s) False ?s1 = Inr (nd', s5)"
      and s': "s' = delay 500 s5"
    by (auto simp: round_core_def split: sum.splits)
  have b: "\<forall>k s''. setup_eq ?s1 s'' \<longrightarrow> beyond s'' (adc e k (m_segmentPinsList ?s1 ! i))"
    using assms(7) after_pulses_facts(2) [of s phase lv ms]
    by (auto simp: after_pulses_facts(6) intro: setup_eq_trans)
  from recheck_for_marks [OF assms(1) _ assms(3,4) _ _ b r]
  have "nd' \<and> m_refreshSegmentNeeded s5 ! i"
    using assms(2,5,6) by (simp add: after_pulses_facts)
  then show ?thesis
    by (simp add: s' delay_def)
qed

lemma round_core_clear:
  assumes "calm e" and "\<not> m_stopDrivingFlag s"
    and "i < length (m_refreshSegmentNeeded s)" and "\<not> m_refreshSegmentNeeded s ! i"
    and "\<forall>k s''. setup_eq s s'' \<longrightarrow> \<not> beyond s'' (adc e k (m_segmentPinsList s ! i))"
    and "round_core e phase lv beyond retries maxr ms s = Inr (nd', s')"
  shows "\<not> m_refreshSegmentNeeded s' ! i"
proof -
  let ?s1 = "after_pulses phase lv ms s"
  from assms(6) obtain s5
    where r: "recheck_for e phase beyond retries maxr (segments s) False ?s1 = Inr (nd', s5)"
      and s': "s' = delay 500 s5"
    by (auto simp: round_core_def split: sum.splits)
  have b: "\<forall>k s''. setup_eq ?s1 s'' \<longrightarrow> \<not> beyond s'' (adc e k (m_segmentPinsList ?s1 ! i))"
    using assms(5) after_pulses_facts(2) [of s phase lv ms]
    by (auto simp: after_pulses_facts(6) intro: setup_eq_trans)
  from recheck_for_clear [OF assms(1) _ _ _ b r]
  have "\<not> m_refreshSegmentNeeded s5 ! i"
    using assms(2,3,4) by (simp add: after_pulses_facts)
  then show ?thesis
    by (simp add: s' delay_def)
qed

lemma retry_loop_inv:
  fixes W :: "bool \<Rightarrow> int \<Rightarrow> driver \<Rightarrow> driver + driver"
    and R :: "int \<Rightarrow> driver \<Rightarrow> driver + bool \<times> driver"
  assumes unfold: "\<And>nd r s. W nd r s =
            (if \<not> nd then Inr s
             else (case R r s of Inl a \<Rightarrow> Inl a | Inr (nd', s1) \<Rightarrow> W nd' (r + 1) s1))"
    and round: "\<And>r s. J s \<Longrightarrow> \<exists>nd' s'. R r s = Inr (nd', s') \<and> J s' \<and> (nd' \<longrightarrow> r < M)"
    and start: "J s"
  shows "\<exists>s'. W nd r s = Inr s' \<and> J s'"
  using start
proof (induction "if nd then Suc (nat (M - r)) else 0" arbitrary: nd r s rule: less_induct)
  case less
  show ?case
  proof (cases nd)
    case False
    then show ?thesis using less.prems unfold [of nd r s] by simp
  next
    case True
    from round [OF less.prems, of r] obtain nd' s1
      where r1: "R r s = Inr (nd', s1)" and j1: "J s1" and b: "nd' \<longrightarrow> r < M"
      by blast
    have step: "W nd r s = W nd' (r + 1) s1"
      using True r1 unfold [of nd r s] by simp
    have "(if nd' then Suc (nat (M - (r + 1))) else 0) < (if nd then Suc (nat (M - r)) else 0)"
      using True b by auto
    from less.hyps [OF this j1] show ?thesis
      unfolding step .
  qed
qed

lemma retry_loop_count:
  fixes W :: "bool \<Rightarrow> int \<Rightarrow> driver \<Rightarrow> driver + driver"
    and R :: "int \<Rightarrow> driver \<Rightarrow> driver + bool \<times> driver"
    and c :: "driver \<Rightarrow> nat" and f :: "driver \<Rightarrow> bool"
  assumes unfold: "\<And>nd r s. W nd r s =
            (if \<not> nd then Inr s
             else (case R r s of Inl a \<Rightarrow> Inl a | Inr (nd', s1) \<Rightarrow> W nd' (r + 1) s1))"
    and round: "\<And>r s. I s \<Longrightarrow> \<exists>nd' s'. R r s = Inr (nd', s') \<and> I s'
                  \<and> c s' = c s + (if f s then 1 else 0)
                  \<and> (f s \<longrightarrow> f s')
                  \<and> (r < M \<longrightarrow> nd' \<and> f s') \<and> (\<not> r < M \<longrightarrow> \<not> nd')"
    and start: "I s" and le: "r \<le> M"
  shows "\<exists>s'. W True r s = Inr s' \<and> I s'
           \<and> c s' = c s + nat (M - r) + (if f s then 1 else 0)
           \<and> (f s \<or> r < M \<longrightarrow> f s')"
  using start le
proof (induction "nat (M - r)" arbitrary: r s)
  case 0
  then have eq: "r = M" by simp
  from round [OF "0.prems"(1), of r] obtain nd' s1
    where r1: "R r s = Inr (nd', s1)" and i1: "I s1"
      and c1: "c s1 = c s + (if f s then 1 else 0)" and f1: "f s \<longrightarrow> f s1"
      and n1: "\<not> r < M \<longrightarrow> \<not> nd'"
    by blast
  have "W True r s = Inr s1"
    using r1 n1 eq unfold [of True r s] unfold [of False "r + 1" s1] by simp
  then show ?case
    using i1 c1 f1 eq by simp
next
  case (Suc n)
  then have lt: "r < M" by simp
  from round [OF Suc.prems(1), of r] obtain nd' s1
    where r1: "R r s = Inr (nd', s1)" and i1: "I s1"
      and c1: "c s1 = c s + (if f s then 1 else 0)"
      and n1: "r < M \<longrightarrow> nd' \<and> f s1"
    by blast
  have step: "W True r s = W True (r + 1) s1"
    using r1 n1 lt unfold [of True r s] by simp
  have "n = nat (M - (r + 1))" "r + 1 \<le> M"
    using Suc.hyps(2) lt by simp_all
  from Suc.hyps(1) [OF this(1) i1 this(2)] obtain s'
    where w: "W True (r + 1) s1 = Inr s'" and i': "I s'"
      and c': "c s' = c s1 + nat (M - (r + 1)) + (if f s1 then 1 else 0)"
      and f': "f s1 \<or> r + 1 < M \<longrightarrow> f s'"
    by blast
  have "nat (M - r) = Suc (nat (M - (r + 1)))"
    using lt by simp
  then show ?case
    unfolding step using w i' c' f' c1 n1 lt by simp
qed

lemma refresh_frame_facts:
  assumes "refresh_frame s0 s"
  shows "setup_eq s0 s" "segments s = segments s0"
    "m_segmentPinsList s = m_segmentPinsList s0" "m_currentState s = m_currentState s0"
    "length (m_refreshSegmentNeeded s) = length (m_refreshSegmentNeeded s0)"
    "well_formed s0 \<Longrightarrow> well_formed s" "distinct_pins s0 \<Longrightarrow> distinct_pins s"
    "i < length (m_refreshSegmentNeeded s0) \<Longrightarrow> m_refreshSegmentNeeded s0 ! i
       \<Longrightarrow> m_refreshSegmentNeeded s ! i"
  using assms
  by (simp_all add: refresh_frame_def setup_eq_def segments_def well_formed_def distinct_pins_def)

lemma well_formed_index:
  assumes "well_formed s" and "i < nat (m_numberOfSegments s)"
  shows "i \<in> set (segments s)" "i < length (m_refreshSegmentNeeded s)"
    "i < length (m_currentState s)" "i < length (m_segmentPinsList s)"
  using assms by (simp_all add: well_formed_def segments_def)

lemma round_core_segment:
  assumes calm: "calm e" and nf: "\<not> m_stopDrivingFlag s"
    and wf: "well_formed s" and dp: "distinct_pins s" and i: "i < nat (m_numberOfSegments s)"
  shows "\<exists>nd' s'. round_core e phase lv beyond r M ms s = Inr (nd', s')
           \<and> \<not> m_stopDrivingFlag s' \<and> refresh_frame s s'
           \<and> (nd' \<longrightarrow> r < M)
           \<and> pulses (m_segmentPinsList s ! i) l s'
                = pulses (m_segmentPinsList s ! i) l s
                  + (if l = lv \<and> m_currentState s ! i = phase \<and> m_refreshSegmentNeeded s ! i
                     then 1 else 0)
           \<and> (m_refreshSegmentNeeded s ! i \<longrightarrow> m_refreshSegmentNeeded s' ! i)
           \<and> (r < M \<and> m_currentState s ! i = phase
                \<and> (\<forall>k s''. setup_eq s s'' \<longrightarrow> beyond s'' (adc e k (m_segmentPinsList s ! i)))
                \<longrightarrow> nd' \<and> m_refreshSegmentNeeded s' ! i)
           \<and> (\<not> m_refreshSegmentNeeded s ! i
                \<and> (\<forall>k s''. setup_eq s s'' \<longrightarrow> \<not> beyond s'' (adc e k (m_segmentPinsList s ! i)))
                \<longrightarrow> \<not> m_refreshSegmentNeeded s' ! i)"
proof -
  note ix = well_formed_index [OF wf i]
  from round_core_calm [OF calm nf, of phase lv beyond r M ms "m_segmentPinsList s ! i" l]
  obtain nd' s' where rc: "round_core e phase lv beyond r M ms s = Inr (nd', s')"
    and f: "\<not> m_stopDrivingFlag s'" "refresh_frame s s'" "nd' \<longrightarrow> r < M"
    and c: "count_list (trace s') (DigitalWrite (m_segmentPinsList s ! i) l)
                = count_list (trace s) (DigitalWrite (m_segmentPinsList s ! i) l)
                  + count_list (concat (map (pulse_events phase lv s) (segments s)))
                      (DigitalWrite (m_segmentPinsList s ! i) l)"
    by blast
  have c': "pulses (m_segmentPinsList s ! i) l s'
                = pulses (m_segmentPinsList s ! i) l s
                  + (if l = lv \<and> m_currentState s ! i = phase \<and> m_refreshSegmentNeeded s ! i
                     then 1 else 0)"
    unfolding pulses_def c
    using count_pulse_events [OF dp [unfolded distinct_pins_def] ix(1), of phase lv l] by simp
  have k: "m_refreshSegmentNeeded s ! i \<longrightarrow> m_refreshSegmentNeeded s' ! i"
    using refresh_frame_facts(8) [OF f(2) ix(2)] by blast
  have m: "nd' \<and> m_refreshSegmentNeeded s' ! i"
    if "r < M" "m_currentState s ! i = phase"
      "\<forall>k s''. setup_eq s s'' \<longrightarrow> beyond s'' (adc e k (m_segmentPinsList s ! i))"
    using round_core_marks [OF calm nf that(1) ix(1,2) that(2,3) rc] .
  have n: "\<not> m_refreshSegmentNeeded s' ! i"
    if "\<not> m_refreshSegmentNeeded s ! i"
      "\<forall>k s''. setup_eq s s'' \<longrightarrow> \<not> beyond s'' (adc e k (m_segmentPinsList s ! i))"
    using round_core_clear [OF calm nf ix(2) that rc] .
  show ?thesis
    using rc f c' k m n by blast
qed

lemma loop_always:
  fixes W :: "bool \<Rightarrow> int \<Rightarrow> driver \<Rightarrow> driver + driver"
    and R :: "int \<Rightarrow> driver \<Rightarrow> driver + bool \<times> driver"
  assumes unfold: "\<And>nd r s. W nd r s =
            (if \<not> nd then Inr s
             else (case R r s of Inl a \<Rightarrow> Inl a | Inr (nd', s1) \<Rightarrow> W nd' (r + 1) s1))"
    and rc: "\<And>r s. \<not> m_stopDrivingFlag s \<Longrightarrow> R r s = round_core e phase lv beyond r M (ms s) s"
    and calm: "calm e" and nf: "\<not> m_stopDrivingFlag s0"
    and wf: "well_formed s0" and dp: "distinct_pins s0" and i: "i < nat (m_numberOfSegments s0)"
    and ph: "m_currentState s0 ! i = phase"
    and bey: "\<forall>k s''. setup_eq s0 s'' \<longrightarrow> beyond s'' (adc e k (m_segmentPinsList s0 ! i))"
    and le: "r \<le> M"
  shows "\<exists>s'. W True r s0 = Inr s' \<and> \<not> m_stopDrivingFlag s' \<and> refresh_frame s0 s'
           \<and> pulses (m_segmentPinsList s0 ! i) lv s'
                = pulses (m_segmentPinsList s0 ! i) lv s0 + nat (M - r)
                  + (if m_refreshSegmentNeeded s0 ! i then 1 else 0)
           \<and> (m_refreshSegmentNeeded s0 ! i \<or> r < M \<longrightarrow> m_refreshSegmentNeeded s' ! i)"
proof -
  define I where "I s \<longleftrightarrow> \<not> m_stopDrivingFlag s \<and> refresh_frame s0 s" for s :: driver
  define c where "c s = pulses (m_segmentPinsList s0 ! i) lv s" for s :: driver
  define f where "f s = m_refreshSegmentNeeded s ! i" for s :: driver
  have round: "\<exists>nd' s'. R r s = Inr (nd', s') \<and> I s'
                  \<and> c s' = c s + (if f s then 1 else 0)
                  \<and> (f s \<longrightarrow> f s')
                  \<and> (r < M \<longrightarrow> nd' \<and> f s') \<and> (\<not> r < M \<longrightarrow> \<not> nd')" if "I s" for r s
  proof -
    from that have nfs: "\<not> m_stopDrivingFlag s" and fr: "refresh_frame s0 s"
      by (simp_all add: I_def)
    note ff = refresh_frame_facts [OF fr]
    have ii: "i < nat (m_numberOfSegments s)"
      using i ff(1) by (simp add: setup_eq_def)
    have bs: "\<forall>k s''. setup_eq s s'' \<longrightarrow> beyond s'' (adc e k (m_segmentPinsList s ! i))"
      using bey ff(1,3) by (auto intro: setup_eq_trans)
    from round_core_segment [OF calm nfs ff(6) [OF wf] ff(7) [OF dp] ii,
        of phase lv beyond r M "ms s" lv]
    obtain nd' s' where "round_core e phase lv beyond r M (ms s) s = Inr (nd', s')"
      and "\<not> m_stopDrivingFlag s'" "refresh_frame s s'" "nd' \<longrightarrow> r < M"
      and "pulses (m_segmentPinsList s ! i) lv s'
                = pulses (m_segmentPinsList s ! i) lv s
                  + (if lv = lv \<and> m_currentState s ! i = phase \<and> m_refreshSegmentNeeded s ! i
                     then 1 else 0)"
      and "m_refreshSegmentNeeded s ! i \<longrightarrow> m_refreshSegmentNeeded s' ! i"
      and "r < M \<and> m_currentState s ! i = phase
                \<and> (\<forall>k s''. setup_eq s s'' \<longrightarrow> beyond s'' (adc e k (m_segmentPinsList s ! i)))
                \<longrightarrow> nd' \<and> m_refreshSegmentNeeded s' ! i"
      by blast
    then show ?thesis
      using rc [OF nfs, of r] ph bs ff(3,4) fr
      by (auto simp: I_def c_def f_def intro: refresh_frame_trans)
  qed
  have "I s0"
    using nf by (simp add: I_def refresh_frame_refl)
  from retry_loop_count [of W R I c f M, OF unfold round this le]
  show ?thesis
    by (simp add: I_def c_def f_def)
qed

lemma loop_still:
  fixes W :: "bool \<Rightarrow> int \<Rightarrow> driver \<Rightarrow> driver + driver"
    and R :: "int \<Rightarrow> driver \<Rightarrow> driver + bool \<times> driver"
  assumes unfold: "\<And>nd r s. W nd r s =
            (if \<not> nd then Inr s
             else (case R r s of Inl a \<Rightarrow> Inl a | Inr (nd', s1) \<Rightarrow> W nd' (r + 1) s1))"
    and rc: "\<And>r s. \<not> m_stopDrivingFlag s \<Longrightarrow> R r s = round_core e phase lv beyond r M (ms s) s"
    and calm: "calm e" and nf: "\<not> m_stopDrivingFlag s0"
    and wf: "well_formed s0" and dp: "distinct_pins s0" and i: "i < nat (m_numberOfSegments s0)"
    and off: "l = lv \<and> m_currentState s0 ! i = phase \<longrightarrow>
                \<not> m_refreshSegmentNeeded s0 ! i
                \<and> (\<forall>k s''. setup_eq s0 s'' \<longrightarrow> \<not> beyond s'' (adc e k (m_segmentPinsList s0 ! i)))"
  shows "\<exists>s'. W nd r s0 = Inr s' \<and> \<not> m_stopDrivingFlag s' \<and> refresh_frame s0 s'
           \<and> pulses (m_segmentPinsList s0 ! i) l s' = pulses (m_segmentPinsList s0 ! i) l s0
           \<and> (l = lv \<and> m_currentState s0 ! i = phase \<longrightarrow> \<not> m_refreshSegmentNeeded s' ! i)"
proof -
  define J where "J s \<longleftrightarrow> \<not> m_stopDrivingFlag s \<and> refresh_frame s0 s
      \<and> pulses (m_segmentPinsList s0 ! i) l s = pulses (m_segmentPinsList s0 ! i) l s0
      \<and> (l = lv \<and> m_currentState s0 ! i = phase \<longrightarrow> \<not> m_refreshSegmentNeeded s ! i)" for s :: driver
  have round: "\<exists>nd' s'. R r s = Inr (nd', s') \<and> J s' \<and> (nd' \<longrightarrow> r < M)" if "J s" for r s
  proof -
    from that have nfs: "\<not> m_stopDrivingFlag s" and fr: "refresh_frame s0 s"
      and cs: "pulses (m_segmentPinsList s0 ! i) l s = pulses (m_segmentPinsList s0 ! i) l s0"
      and ns: "l = lv \<and> m_currentState s0 ! i = phase \<longrightarrow> \<not> m_refreshSegmentNeeded s ! i"
      by (simp_all add: J_def)
    note ff = refresh_frame_facts [OF fr]
    have ii: "i < nat (m_numberOfSegments s)"
      using i ff(1) by (simp add: setup_eq_def)
    have bs: "l = lv \<and> m_currentState s0 ! i = phase \<longrightarrow>
        (\<forall>k s''. setup_eq s s'' \<longrightarrow> \<not> beyond s'' (adc e k (m_segmentPinsList s ! i)))"
      using off ff(1,3) by (auto intro: setup_eq_trans)
    from round_core_segment [OF calm nfs ff(6) [OF wf] ff(7) [OF dp] ii,
        of phase lv beyond r M "ms s" l]
    obtain nd' s' where "round_core e phase lv beyond r M (ms s) s = Inr (nd', s')"
      and "\<not> m_stopDrivingFlag s'" "refresh_frame s s'" "nd' \<longrightarrow> r < M"
      and "pulses (m_segmentPinsList s ! i) l s'
                = pulses (m_segmentPinsList s ! i) l s
                  + (if l = lv \<and> m_currentState s ! i = phase \<and> m_refreshSegmentNeeded s ! i
                     then 1 else 0)"
      and "\<not> m_refreshSegmentNeeded s ! i
                \<and> (\<forall>k s''. setup_eq s s'' \<longrightarrow> \<not> beyond s'' (adc e k (m_segmentPinsList s ! i)))
                \<longrightarrow> \<not> m_refreshSegmentNeeded s' ! i"
      by blast
    then show ?thesis
      using rc [OF nfs, of r] bs ns cs ff(3,4) fr
      by (auto simp: J_def intro: refresh_frame_trans)
  qed
  have "J s0"
    using nf off by (simp add: J_def refresh_frame_refl)
  from retry_loop_inv [of W R J M, OF unfold round this]
  show ?thesis
    by (simp add: J_def)
qed

lemma loop_grows:
  fixes W :: "bool \<Rightarrow> int \<Rightarrow> driver \<Rightarrow> driver + driver"
    and R :: "int \<Rightarrow> driver \<Rightarrow> driver + bool \<times> driver"
  assumes unfold: "\<And>nd r s. W nd r s =
            (if \<not> nd then Inr s
             else (case R r s of Inl a \<Rightarrow> Inl a | Inr (nd', s1) \<Rightarrow> W nd' (r + 1) s1))"
    and rc: "\<And>r s. \<not> m_stopDrivingFlag s \<Longrightarrow> R r s = round_core e phase lv beyond r M (ms s) s"
    and calm: "calm e" and nf: "\<not> m_stopDrivingFlag s0"
    and wf: "well_formed s0" and dp: "distinct_pins s0" and i: "i < nat (m_numberOfSegments s0)"
    and lo: "n \<le> pulses (m_segmentPinsList s0 ! i) l s0"
  shows "\<exists>s'. W nd r s0 = Inr s' \<and> \<not> m_stopDrivingFlag s' \<and> refresh_frame s0 s'
           \<and> n \<le> pulses (m_segmentPinsList s0 ! i) l s'"
proof -
  define J where "J s \<longleftrightarrow> \<not> m_stopDrivingFlag s \<and> refresh_frame s0 s
      \<and> n \<le> pulses (m_segmentPinsList s0 ! i) l s" for s :: driver
  have round: "\<exists>nd' s'. R r s = Inr (nd', s') \<and> J s' \<and> (nd' \<longrightarrow> r < M)" if "J s" for r s
  proof -
    from that have nfs: "\<not> m_stopDrivingFlag s" and fr: "refresh_frame s0 s"
      and cs: "n \<le> pulses (m_segmentPinsList s0 ! i) l s"
      by (simp_all add: J_def)
    note ff = refresh_frame_facts [OF fr]
    have ii: "i < nat (m_numberOfSegments s)"
      using i ff(1) by (simp add: setup_eq_def)
    from round_core_segment [OF calm nfs ff(6) [OF wf] ff(7) [OF dp] ii,
        of phase lv beyond r M "ms s" l]
    obtain nd' s' where "round_core e phase lv beyond r M (ms s) s = Inr (nd', s')"
      and "\<not> m_stopDrivingFlag s'" "refresh_frame s s'" "nd' \<longrightarrow> r < M"
      and "pulses (m_segmentPinsList s ! i) l s'
                = pulses (m_segmentPinsList s ! i) l s
                  + (if l = lv \<and> m_currentState s ! i = phase \<and> m_refreshSegmentNeeded s ! i
                     then 1 else 0)"
      by blast
    then show ?thesis
      using rc [OF nfs, of r] cs ff(3) fr
      by (auto simp: J_def intro: refresh_frame_trans)
  qed
  have "J s0"
    using nf lo by (simp add: J_def refresh_frame_refl)
  from retry_loop_inv [of W R J M, OF unfold round this]
  show ?thesis
    by (simp add: J_def)
qed

lemma loop_flagged:
  fixes W :: "bool \<Rightarrow> int \<Rightarrow> driver \<Rightarrow> driver + driver"
    and R :: "int \<Rightarrow> driver \<Rightarrow> driver + bool \<times> driver"
  assumes unfold: "\<And>nd r s. W nd r s =
            (if \<not> nd then Inr s
             else (case R r s of Inl a \<Rightarrow> Inl a | Inr (nd', s1) \<Rightarrow> W nd' (r + 1) s1))"
    and rc: "\<And>r s. \<not> m_stopDrivingFlag s \<Longrightarrow> R r s = round_core e phase lv beyond r M (ms s) s"
    and calm: "calm e" and nf: "\<not> m_stopDrivingFlag s0"
    and wf: "well_formed s0" and dp: "distinct_pins s0" and i: "i < nat (m_numberOfSegments s0)"
    and ph: "m_currentState s0 ! i = phase" and fl: "m_refreshSegmentNeeded s0 ! i"
  shows "\<exists>s'. W True r s0 = Inr s' \<and> \<not> m_stopDrivingFlag s' \<and> refresh_frame s0 s'
           \<and> pulses (m_segmentPinsList s0 ! i) lv s0 + 1 \<le> pulses (m_segmentPinsList s0 ! i) lv s'"
proof -
  from round_core_segment [OF calm nf wf dp i, of phase lv beyond r M "ms s0" lv]
  obtain nd' s1 where r1: "round_core e phase lv beyond r M (ms s0) s0 = Inr (nd', s1)"
    and f1: "\<not> m_stopDrivingFlag s1" "refresh_frame s0 s1"
    and c1: "pulses (m_segmentPinsList s0 ! i) lv s1
                = pulses (m_segmentPinsList s0 ! i) lv s0
                  + (if lv = lv \<and> m_currentState s0 ! i = phase \<and> m_refreshSegmentNeeded s0 ! i
                     then 1 else 0)"
    by blast
  note ff = refresh_frame_facts [OF f1(2)]
  have step: "W True r s0 = W nd' (r + 1) s1"
    using unfold [of True r s0] rc [OF nf, of r] r1 by simp
  have i1: "i < nat (m_numberOfSegments s1)"
    using i ff(1) by (simp add: setup_eq_def)
  have lo: "pulses (m_segmentPinsList s0 ! i) lv s0 + 1 \<le> pulses (m_segmentPinsList s1 ! i) lv s1"
    using c1 ph fl ff(3) by simp
  from loop_grows [of W R e phase lv beyond M ms, OF unfold rc calm f1(1) ff(6) [OF wf] ff(7) [OF dp] i1 lo]
  obtain s' where "W nd' (r + 1) s1 = Inr s'" "\<not> m_stopDrivingFlag s'" "refresh_frame s1 s'"
    "pulses (m_segmentPinsList s0 ! i) lv s0 + 1 \<le> pulses (m_segmentPinsList s1 ! i) lv s'"
    by blast
  then show ?thesis
    unfolding step using f1(2) ff(3) by (auto intro: refresh_frame_trans)
qed

lemma bleach_round_core:
  assumes "calm e"
  shows "\<not> m_stopDrivingFlag s \<Longrightarrow> refresh_bleach_round H e r s =
           round_core e SEGMENT_STATE_BLEACH LOW (\<lambda>s a. real_of_int a > m_refreshBleachLimitL s)
             r (MAX_REFRESH_RETRIES H) ((\<lambda>s. refreshBleachPulseTime (m_cfg s)) s) s"
  using refresh_bleach_round_calm [OF assms] by simp

lemma color_round_core:
  assumes "calm e"
  shows "\<not> m_stopDrivingFlag s \<Longrightarrow> refresh_color_round H e cl r s =
           round_core e SEGMENT_STATE_COLOR HIGH (\<lambda>s a. real_of_int a < cl)
             r (MAX_REFRESH_RETRIES H) ((\<lambda>s. refreshColorPulseTime (m_cfg s)) s) s"
  using refresh_color_round_calm [OF assms] by simp

lemma bleach_while_always:
  assumes calm: "calm e" and nf: "\<not> m_stopDrivingFlag s0"
    and wf: "well_formed s0" and dp: "distinct_pins s0" and i: "i < nat (m_numberOfSegments s0)"
    and ph: "m_currentState s0 ! i = SEGMENT_STATE_BLEACH"
    and bey: "\<forall>k. m_refreshBleachLimitL s0 < real_of_int (adc e k (m_segmentPinsList s0 ! i))"
    and le: "r \<le> MAX_REFRESH_RETRIES H"
  shows "\<exists>s'. refresh_bleach_while H e True r s0 = Inr s' \<and> \<not> m_stopDrivingFlag s'
           \<and> refresh_frame s0 s'
           \<and> pulses (m_segmentPinsList s0 ! i) LOW s'
                = pulses (m_segmentPinsList s0 ! i) LOW s0 + nat (MAX_REFRESH_RETRIES H - r)
                  + (if m_refreshSegmentNeeded s0 ! i then 1 else 0)
           \<and> (m_refreshSegmentNeeded s0 ! i \<or> r < MAX_REFRESH_RETRIES H
                \<longrightarrow> m_refreshSegmentNeeded s' ! i)"
proof -
  have b: "\<forall>k s''. setup_eq s0 s'' \<longrightarrow>
             m_refreshBleachLimitL s'' < real_of_int (adc e k (m_segmentPinsList s0 ! i))"
    using bey by (simp add: setup_eq_def)
  show ?thesis
    by (rule loop_always [of "refresh_bleach_while H e" "refresh_bleach_round H e" e
          SEGMENT_STATE_BLEACH LOW "\<lambda>s a. real_of_int a > m_refreshBleachLimitL s"
          "MAX_REFRESH_RETRIES H" "\<lambda>s. refreshBleachPulseTime (m_cfg s)",
          OF refresh_bleach_while.simps bleach_round_core [OF calm] calm nf wf dp i ph b le])
qed

lemma bleach_while_still:
  assumes calm: "calm e" and nf: "\<not> m_stopDrivingFlag s0"
    and wf: "well_formed s0" and dp: "distinct_pins s0" and i: "i < nat (m_numberOfSegments s0)"
    and off: "l = LOW \<and> m_currentState s0 ! i = SEGMENT_STATE_BLEACH \<longrightarrow>
                \<not> m_refreshSegmentNeeded s0 ! i
                \<and> (\<forall>k. real_of_int (adc e k (m_segmentPinsList s0 ! i)) \<le> m_refreshBleachLimitL s0)"
  shows "\<exists>s'. refresh_bleach_while H e nd r s0 = Inr s' \<and> \<not> m_stopDrivingFlag s'
           \<and> refresh_frame s0 s'
           \<and> pulses (m_segmentPinsList s0 ! i) l s' = pulses (m_segmentPinsList s0 ! i) l s0
           \<and> (l = LOW \<and> m_currentState s0 ! i = SEGMENT_STATE_BLEACH
                \<longrightarrow> \<not> m_refreshSegmentNeeded s' ! i)"
proof -
  have b: "l = LOW \<and> m_currentState s0 ! i = SEGMENT_STATE_BLEACH \<longrightarrow>
             \<not> m_refreshSegmentNeeded s0 ! i
             \<and> (\<forall>k s''. setup_eq s0 s'' \<longrightarrow>
                  \<not> m_refreshBleachLimitL s'' < real_of_int (adc e k (m_segmentPinsList s0 ! i)))"
    using off by (simp add: setup_eq_def not_less)
  show ?thesis
    by (rule loop_still [of "refresh_bleach_while H e" "refresh_bleach_round H e" e
          SEGMENT_STATE_BLEACH LOW "\<lambda>s a. real_of_int a > m_refreshBleachLimitL s"
          "MAX_REFRESH_RETRIES H" "\<lambda>s. refreshBleachPulseTime (m_cfg s)",
          OF refresh_bleach_while.simps bleach_round_core [OF calm] calm nf wf dp i b])
qed

lemma bleach_while_flagged:
  assumes calm: "calm e" and nf: "\<not> m_stopDrivingFlag s0"
    and wf: "well_formed s0" and dp: "distinct_pins s0" and i: "i < nat (m_numberOfSegments s0)"
    and ph: "m_currentState s0 ! i = SEGMENT_STATE_BLEACH"
    and fl: "m_refreshSegmentNeeded s0 ! i"
  shows "\<exists>s'. refresh_bleach_while H e True r s0 = Inr s' \<and> \<not> m_stopDrivingFlag s'
           \<and> refresh_frame s0 s'
           \<and> pulses (m_segmentPinsList s0 ! i) LOW s0 + 1
                \<le> pulses (m_segmentPinsList s0 ! i) LOW s'"
  by (rule loop_flagged [of "refresh_bleach_while H e" "refresh_bleach_round H e" e
        SEGMENT_STATE_BLEACH LOW "\<lambda>s a. real_of_int a > m_refreshBleachLimitL s"
        "MAX_REFRESH_RETRIES H" "\<lambda>s. refreshBleachPulseTime (m_cfg s)",
        OF refresh_bleach_while.simps bleach_round_core [OF calm] calm nf wf dp i ph fl])

lemma color_while_always:
  assumes calm: "calm e" and nf: "\<not> m_stopDrivingFlag s0"
    and wf: "well_formed s0" and dp: "distinct_pins s0" and i: "i < nat (m_numberOfSegments s0)"
    and ph: "m_currentState s0 ! i = SEGMENT_STATE_COLOR"
    and bey: "\<forall>k. real_of_int (adc e k (m_segmentPinsList s0 ! i)) < cl"
    and le: "r \<le> MAX_REFRESH_RETRIES H"
  shows "\<exists>s'. refresh_color_while H e cl True r s0 = Inr s' \<and> \<not> m_stopDrivingFlag s'
           \<and> refresh_frame s0 s'
           \<and> pulses (m_segmentPinsList s0 ! i) HIGH s'
                = pulses (m_segmentPinsList s0 ! i) HIGH s0 + nat (MAX_REFRESH_RETRIES H - r)
                  + (if m_refreshSegmentNeeded s0 ! i then 1 else 0)
           \<and> (m_refreshSegmentNeeded s0 ! i \<or> r < MAX_REFRESH_RETRIES H
                \<longrightarrow> m_refreshSegmentNeeded s' ! i)"
proof -
  have b: "\<forall>k s''. setup_eq s0 s'' \<longrightarrow>
             real_of_int (adc e k (m_segmentPinsList s0 ! i)) < cl"
    using bey by simp
  show ?thesis
    by (rule loop_always [of "refresh_color_while H e cl" "refresh_color_round H e cl" e
          SEGMENT_STATE_COLOR HIGH "\<lambda>s a. real_of_int a < cl"
          "MAX_REFRESH_RETRIES H" "\<lambda>s. refreshColorPulseTime (m_cfg s)",
          OF refresh_color_while.simps color_round_core [OF calm] calm nf wf dp i ph b le])
qed

lemma color_while_still:
  assumes calm: "calm e" and nf: "\<not> m_stopDrivingFlag s0"
    and wf: "well_formed s0" and dp: "distinct_pins s0" and i: "i < nat (m_numberOfSegments s0)"
    and off: "l = HIGH \<and> m_currentState s0 ! i = SEGMENT_STATE_COLOR \<longrightarrow>
                \<not> m_refreshSegmentNeeded s0 ! i
                \<and> (\<forall>k. cl \<le> real_of_int (adc e k (m_segmentPinsList s0 ! i)))"
  shows "\<exists>s'. refresh_color_while H e cl nd r s0 = Inr s' \<and> \<not> m_stopDrivingFlag s'
           \<and> refresh_frame s0 s'
           \<and> pulses (m_segmentPinsList s0 ! i) l s' = pulses (m_segmentPinsList s0 ! i) l s0
           \<and> (l = HIGH \<and> m_currentState s0 ! i = SEGMENT_STATE_COLOR
                \<longrightarrow> \<not> m_refreshSegmentNeeded s' ! i)"
proof -
  have b: "l = HIGH \<and> m_currentState s0 ! i = SEGMENT_STATE_COLOR \<longrightarrow>
             \<not> m_refreshSegmentNeeded s0 ! i
             \<and> (\<forall>k s''. setup_eq s0 s'' \<longrightarrow>
                  \<not> real_of_int (adc e k (m_segmentPinsList s0 ! i)) < cl)"
    using off by (simp add: not_less)
  show ?thesis
    by (rule loop_still [of "refresh_color_while H e cl" "refresh_color_round H e cl" e
          SEGMENT_STATE_COLOR HIGH "\<lambda>s a. real_of_int a < cl"
          "MAX_REFRESH_RETRIES H" "\<lambda>s. refreshColorPulseTime (m_cfg s)",
          OF refresh_color_while.simps color_round_core [OF calm] calm nf wf dp i b])
qed

lemma color_while_flagged:
  assumes calm: "calm e" and nf: "\<not> m_stopDrivingFlag s0"
    and wf: "well_formed s0" and dp: "distinct_pins s0" and i: "i < nat (m_numberOfSegments s0)"
    and ph: "m_currentState s0 ! i = SEGMENT_STATE_COLOR"
    and fl: "m_refreshSegmentNeeded s0 ! i"
  shows "\<exists>s'. refresh_color_while H e cl True r s0 = Inr s' \<and> \<not> m_stopDrivingFlag s'
           \<and> refresh_frame s0 s'
           \<and> pulses (m_segmentPinsList s0 ! i) HIGH s0 + 1
                \<le> pulses (m_segmentPinsList s0 ! i) HIGH s'"
  by (rule loop_flagged [of "refresh_color_while H e cl" "refresh_color_round H e cl" e
        SEGMENT_STATE_COLOR HIGH "\<lambda>s a. real_of_int a < cl"
        "MAX_REFRESH_RETRIES H" "\<lambda>s. refreshColorPulseTime (m_cfg s)",
        OF refresh_color_while.simps color_round_core [OF calm] calm nf wf dp i ph fl])

lemma classify_for_trace:
  assumes "calm e" and "\<not> m_stopDrivingFlag s"
  shows "\<exists>rc' rb' s'. classify_for e is rc rb s = Inr (rc', rb', s')
           \<and> trace s' = trace s @ concat (map (read_events s) is)
           \<and> polls s' = polls s + length is"
  using assms
proof (induction "is" arbitrary: rc rb s)
  case Nil
  then show ?case by simp
next
  case (Cons i "is")
  let ?s3 = "s\<lparr>polls := Suc (polls s),
               trace := trace s @ [PinMode (m_segmentPinsList s ! i) INPUT,
                                   AnalogRead (m_segmentPinsList s ! i)],
               reads := Suc (reads s)\<rparr>"
  let ?m = "?s3\<lparr>m_refreshSegmentNeeded := (m_refreshSegmentNeeded s)[i := True]\<rparr>"
  have re: "read_events ?s3 = read_events s" "read_events ?m = read_events s"
    by (simp_all add: read_events_def fun_eq_iff)
  have nf: "\<not> m_stopDrivingFlag ?s3" "\<not> m_stopDrivingFlag ?m"
    using Cons.prems by simp_all
  show ?case
    using Cons.prems Cons.IH [OF Cons.prems(1) nf(1), of rc rb]
      Cons.IH [OF Cons.prems(1) nf(2), of True rb] Cons.IH [OF Cons.prems(1) nf(2), of rc True]
    unfolding re
    by (auto simp: stopDriving_calm prim_defs Let_def read_events_def [of s i])
qed

lemma count_read_events: "count_list (concat (map (read_events s) is)) (DigitalWrite p l) = 0"
  by (induction "is") (simp_all add: read_events_def)

lemma mid_rail_facts:
  "refresh_frame s (mid_rail H s)" "m_stopDrivingFlag (mid_rail H s) = m_stopDrivingFlag s"
  "segments (mid_rail H s) = segments s" "reads (mid_rail H s) = reads s"
  "pulses p l (mid_rail H s) = pulses p l s"
  "low_color (mid_rail H s) = low_color s" "high_bleach (mid_rail H s) = high_bleach s"
  "m_segmentPinsList (mid_rail H s) = m_segmentPinsList s"
  "m_refreshSegmentNeeded (mid_rail H s) = m_refreshSegmentNeeded s"
  by (simp_all add: mid_rail_def refresh_frame_def setup_eq_def segments_def pulses_def
        count_float_events low_color_def high_bleach_def fun_eq_iff)

lemma refreshDisplay_calm:
  assumes calm: "calm e" and nf: "\<not> m_stopDrivingFlag s"
  shows "\<exists>rc rb s4. classify_for e (segments s) False False (mid_rail H s) = Inr (rc, rb, s4)
      \<and> refreshDisplay H e s =
          (if \<not> (rb \<or> rc) then (Completed, s4\<lparr>polls := Suc (polls s4)\<rparr>)
           else
             (case refresh_bleach_while H e rb 0
                     (enableCounterElectrode H (refreshBleachingVoltage (m_cfg s4))
                        (s4\<lparr>polls := Suc (polls s4)\<rparr>)) of
                Inl a \<Rightarrow> (Stopped, a)
              | Inr s7 \<Rightarrow>
                  (case refresh_color_while H e (m_refreshColorLimitH s7) rc 0
                          (enableCounterElectrode H
                             (m_supplyVoltage s7 - refreshColoringVoltage (m_cfg s7)) s7) of
                     Inl a \<Rightarrow> (Stopped, a)
                   | Inr s9 \<Rightarrow> (Completed, disableCounterElectrode s9))))"
proof -
  have m: "disableAllSegments (enableCounterElectrode H
              (m_supplyVoltage s / 2) (s\<lparr>polls := Suc (polls s)\<rparr>))
            = mid_rail H s"
    by (cases s) (simp add: disableAllSegments_eq enableCounterElectrode_eq mid_rail_def
          segments_def float_events_def)
  have nfm: "\<not> m_stopDrivingFlag (mid_rail H s)"
    using nf by (simp add: mid_rail_facts)
  from classify_for_calm [OF calm nfm, of "segments s" False False]
  obtain rc rb s4 where c: "classify_for e (segments s) False False (mid_rail H s) = Inr (rc, rb, s4)"
    and f4: "\<not> m_stopDrivingFlag s4"
    by blast
  have "refreshDisplay H e s =
          (if \<not> (rb \<or> rc) then (Completed, s4\<lparr>polls := Suc (polls s4)\<rparr>)
           else
             (case refresh_bleach_while H e rb 0
                     (enableCounterElectrode H (refreshBleachingVoltage (m_cfg s4))
                        (s4\<lparr>polls := Suc (polls s4)\<rparr>)) of
                Inl a \<Rightarrow> (Stopped, a)
              | Inr s7 \<Rightarrow>
                  (case refresh_color_while H e (m_refreshColorLimitH s7) rc 0
                          (enableCounterElectrode H
                             (m_supplyVoltage s7 - refreshColoringVoltage (m_cfg s7)) s7) of
                     Inl a \<Rightarrow> (Stopped, a)
                   | Inr s9 \<Rightarrow> (Completed, disableCounterElectrode s9))))"
    unfolding refreshDisplay_def
    using nf f4 c
    by (simp add: stopDriving_calm [OF calm] Let_def m mid_rail_facts(3) split: sum.splits)
  with c show ?thesis by blast
qed

lemma world_steps:
  "refresh_frame s (s\<lparr>polls := n\<rparr>)"
  "pulses p l (s\<lparr>polls := n\<rparr>) = pulses p l s"
  "pulses p l (enableCounterElectrode H v s) = pulses p l s"
  "pulses p l (disableCounterElectrode s) = pulses p l s"
  "m_stopDrivingFlag (enableCounterElectrode H v s) = m_stopDrivingFlag s"
  "m_stopDrivingFlag (disableCounterElectrode s) = m_stopDrivingFlag s"
  by (simp_all add: refresh_frame_def setup_eq_def pulses_def enableCounterElectrode_eq
        disableCounterElectrode_eq)

lemma count_read_events_other:
  assumes "\<forall>j\<in>set is. m_segmentPinsList s ! j \<noteq> p"
  shows "count_list (concat (map (read_events s) is)) (AnalogRead p) = 0"
  using assms by (induction "is") (simp_all add: read_events_def)

lemma count_read_events_pin:
  assumes "distinct (map (\<lambda>j. m_segmentPinsList s ! j) is)" and "i \<in> set is"
  shows "count_list (concat (map (read_events s) is)) (AnalogRead (m_segmentPinsList s ! i)) = 1"
  using assms
proof (induction "is")
  case Nil
  then show ?case by simp
next
  case (Cons j "is")
  show ?case
  proof (cases "j = i")
    case True
    have "m_segmentPinsList s ! i \<notin> (\<lambda>k. m_segmentPinsList s ! k) ` set is"
      using Cons.prems(1) True by simp
    then have "\<forall>k\<in>set is. m_segmentPinsList s ! k \<noteq> m_segmentPinsList s ! i"
      by (metis imageI)
    from count_read_events_other [OF this] True
    show ?thesis by (simp add: read_events_def [of s i])
  next
    case False
    then have "i \<in> set is" "m_segmentPinsList s ! j \<noteq> m_segmentPinsList s ! i"
      using Cons.prems by auto
    then show ?thesis
      using Cons.IH Cons.prems(1) by (simp add: read_events_def [of s j])
  qed
qed

lemma refreshDisplay_track:
  assumes calm: "calm e" and nf: "\<not> m_stopDrivingFlag s" and wf: "well_formed s"
  shows "\<exists>rc rb s6.
      \<not> m_stopDrivingFlag s6 \<and> refresh_frame s s6
      \<and> (\<forall>p l. pulses p l s6 = pulses p l s)
      \<and> rc = (\<exists>x<nat (m_numberOfSegments s).
                low_color s x (adc e (reads s + x) (m_segmentPinsList s ! x)))
      \<and> rb = (\<exists>x<nat (m_numberOfSegments s).
                high_bleach s x (adc e (reads s + x) (m_segmentPinsList s ! x)))
      \<and> (\<forall>x<nat (m_numberOfSegments s).
            m_refreshSegmentNeeded s6 ! x = (m_refreshSegmentNeeded s ! x \<or> classified e s x))
      \<and> (distinct_pins s \<longrightarrow> (\<forall>x<nat (m_numberOfSegments s).
            samples (m_segmentPinsList s ! x) s6 = samples (m_segmentPinsList s ! x) s + 1))
      \<and> refreshDisplay H e s =
          (if \<not> (rb \<or> rc) then (Completed, s6)
           else
             (case refresh_bleach_while H e rb 0
                     (enableCounterElectrode H (refreshBleachingVoltage (m_cfg s6)) s6) of
                Inl a \<Rightarrow> (Stopped, a)
              | Inr s7 \<Rightarrow>
                  (case refresh_color_while H e (m_refreshColorLimitH s7) rc 0
                          (enableCounterElectrode H
                             (m_supplyVoltage s7 - refreshColoringVoltage (m_cfg s7)) s7) of
                     Inl a \<Rightarrow> (Stopped, a)
                   | Inr s9 \<Rightarrow> (Completed, disableCounterElectrode s9))))"
proof -
  let ?n = "nat (m_numberOfSegments s)"
  have nfm: "\<not> m_stopDrivingFlag (mid_rail H s)"
    using nf by (simp add: mid_rail_facts)
  from refreshDisplay_calm [OF calm nf, of H]
  obtain rc rb s4 where c: "classify_for e (segments s) False False (mid_rail H s) = Inr (rc, rb, s4)"
    and run: "refreshDisplay H e s =
          (if \<not> (rb \<or> rc) then (Completed, s4\<lparr>polls := Suc (polls s4)\<rparr>)
           else
             (case refresh_bleach_while H e rb 0
                     (enableCounterElectrode H (refreshBleachingVoltage (m_cfg s4))
                        (s4\<lparr>polls := Suc (polls s4)\<rparr>)) of
                Inl a \<Rightarrow> (Stopped, a)
              | Inr s7 \<Rightarrow>
                  (case refresh_color_while H e (m_refreshColorLimitH s7) rc 0
                          (enableCounterElectrode H
                             (m_supplyVoltage s7 - refreshColoringVoltage (m_cfg s7)) s7) of
                     Inl a \<Rightarrow> (Stopped, a)
                   | Inr s9 \<Rightarrow> (Completed, disableCounterElectrode s9))))"
    by blast
  from classify_for_calm [OF calm nfm, of "segments s" False False] c
  have f4: "\<not> m_stopDrivingFlag s4"
    and rc: "rc = (\<exists>j<length (segments s). low_color s (segments s ! j)
                      (adc e (reads s + j) (m_segmentPinsList s ! (segments s ! j))))"
    and rb: "rb = (\<exists>j<length (segments s). high_bleach s (segments s ! j)
                      (adc e (reads s + j) (m_segmentPinsList s ! (segments s ! j))))"
    and nd: "\<forall>x<length (m_refreshSegmentNeeded s).
                 m_refreshSegmentNeeded s4 ! x
                   = (m_refreshSegmentNeeded s ! x
                      \<or> (\<exists>j<length (segments s). segments s ! j = x
                           \<and> (low_color s x (adc e (reads s + j) (m_segmentPinsList s ! x))
                              \<or> high_bleach s x (adc e (reads s + j) (m_segmentPinsList s ! x)))))"
    by (simp_all add: mid_rail_facts)
  have seg: "length (segments s) = ?n" "\<And>j. j < ?n \<Longrightarrow> segments s ! j = j"
    by (simp_all add: segments_def)
  have rc': "rc = (\<exists>x<?n. low_color s x (adc e (reads s + x) (m_segmentPinsList s ! x)))"
    unfolding rc seg(1) using seg(2) by auto
  have rb': "rb = (\<exists>x<?n. high_bleach s x (adc e (reads s + x) (m_segmentPinsList s ! x)))"
    unfolding rb seg(1) using seg(2) by auto
  have nd': "m_refreshSegmentNeeded s4 ! x = (m_refreshSegmentNeeded s ! x \<or> classified e s x)"
    if "x < ?n" for x
  proof -
    have "x < length (m_refreshSegmentNeeded s)"
      using that wf by (simp add: well_formed_def)
    with nd have "m_refreshSegmentNeeded s4 ! x
                   = (m_refreshSegmentNeeded s ! x
                      \<or> (\<exists>j<length (segments s). segments s ! j = x
                           \<and> (low_color s x (adc e (reads s + j) (m_segmentPinsList s ! x))
                              \<or> high_bleach s x (adc e (reads s + j) (m_segmentPinsList s ! x)))))"
      by blast
    also have "(\<exists>j<length (segments s). segments s ! j = x
                           \<and> (low_color s x (adc e (reads s + j) (m_segmentPinsList s ! x))
                              \<or> high_bleach s x (adc e (reads s + j) (m_segmentPinsList s ! x))))
               = classified e s x"
      unfolding seg(1) classified_def using seg(2) that by auto
    finally show ?thesis .
  qed
  from classify_for_trace [OF calm nfm, of "segments s" False False] c
  have tr: "trace s4 = trace (mid_rail H s) @ concat (map (read_events (mid_rail H s)) (segments s))"
    by auto
  have pl: "pulses p l s4 = pulses p l s" for p l
    using mid_rail_facts(5) [of p l H s]
    by (simp add: pulses_def tr count_read_events)
  have sm: "samples (m_segmentPinsList s ! x) s4 = samples (m_segmentPinsList s ! x) s + 1"
    if "distinct_pins s" "x < ?n" for x
  proof -
    have re: "read_events (mid_rail H s) = read_events s"
      by (simp add: read_events_def fun_eq_iff mid_rail_facts)
    have "samples (m_segmentPinsList s ! x) (mid_rail H s) = samples (m_segmentPinsList s ! x) s"
      by (simp add: samples_def mid_rail_def float_events_def count_list_0_iff image_iff)
    then show ?thesis
      unfolding samples_def tr re
      using count_read_events_pin [OF that(1) [unfolded distinct_pins_def], of x] that(2)
      by (simp add: segments_def)
  qed
  have fr: "refresh_frame s s4"
    using c classify_for_frame mid_rail_facts(1) by (blast intro: refresh_frame_trans)
  let ?s6 = "s4\<lparr>polls := Suc (polls s4)\<rparr>"
  have "\<not> m_stopDrivingFlag ?s6" "refresh_frame s ?s6" "\<forall>p l. pulses p l ?s6 = pulses p l s"
    "\<forall>x<?n. m_refreshSegmentNeeded ?s6 ! x = (m_refreshSegmentNeeded s ! x \<or> classified e s x)"
    using f4 fr pl nd' world_steps(1) [of s4] by (auto simp: world_steps(2) intro: refresh_frame_trans)
  moreover have "distinct_pins s \<longrightarrow> (\<forall>x<?n.
            samples (m_segmentPinsList s ! x) ?s6 = samples (m_segmentPinsList s ! x) s + 1)"
    using sm by (simp add: samples_def)
  moreover have "refreshDisplay H e s =
          (if \<not> (rb \<or> rc) then (Completed, ?s6)
           else
             (case refresh_bleach_while H e rb 0
                     (enableCounterElectrode H (refreshBleachingVoltage (m_cfg ?s6)) ?s6) of
                Inl a \<Rightarrow> (Stopped, a)
              | Inr s7 \<Rightarrow>
                  (case refresh_color_while H e (m_refreshColorLimitH s7) rc 0
                          (enableCounterElectrode H
                             (m_supplyVoltage s7 - refreshColoringVoltage (m_cfg s7)) s7) of
                     Inl a \<Rightarrow> (Stopped, a)
                   | Inr s9 \<Rightarrow> (Completed, disableCounterElectrode s9))))"
    using run by simp
  ultimately show ?thesis
    using rc' rb' by blast
qed

lemma refresh_bleach_out:
  assumes calm: "calm e" and nf: "\<not> m_stopDrivingFlag s" and wf: "well_formed s"
    and dp: "distinct_pins s" and i: "i < nat (m_numberOfSegments s)"
    and M0: "0 \<le> MAX_REFRESH_RETRIES H"
    and ph: "m_currentState s ! i = SEGMENT_STATE_BLEACH"
    and out: "\<forall>k. m_refreshBleachLimitH s < real_of_int (adc e k (m_segmentPinsList s ! i))
                \<and> m_refreshBleachLimitL s < real_of_int (adc e k (m_segmentPinsList s ! i))"
  shows "\<exists>s'. refreshDisplay H e s = (Completed, s') \<and> \<not> m_stopDrivingFlag s'
           \<and> pulses (m_segmentPinsList s ! i) LOW s'
                = pulses (m_segmentPinsList s ! i) LOW s + nat (MAX_REFRESH_RETRIES H) + 1
           \<and> m_refreshSegmentNeeded s' ! i"
proof -
  let ?p = "m_segmentPinsList s ! i"
  from refreshDisplay_track [OF calm nf wf, of H]
  obtain rc rb s6 where f6: "\<not> m_stopDrivingFlag s6" "refresh_frame s s6"
    and p6: "\<forall>p l. pulses p l s6 = pulses p l s"
    and rb: "rb = (\<exists>x<nat (m_numberOfSegments s).
                high_bleach s x (adc e (reads s + x) (m_segmentPinsList s ! x)))"
    and n6: "\<forall>x<nat (m_numberOfSegments s).
            m_refreshSegmentNeeded s6 ! x = (m_refreshSegmentNeeded s ! x \<or> classified e s x)"
    and run: "refreshDisplay H e s =
          (if \<not> (rb \<or> rc) then (Completed, s6)
           else
             (case refresh_bleach_while H e rb 0
                     (enableCounterElectrode H (refreshBleachingVoltage (m_cfg s6)) s6) of
                Inl a \<Rightarrow> (Stopped, a)
              | Inr s7 \<Rightarrow>
                  (case refresh_color_while H e (m_refreshColorLimitH s7) rc 0
                          (enableCounterElectrode H
                             (m_supplyVoltage s7 - refreshColoringVoltage (m_cfg s7)) s7) of
                     Inl a \<Rightarrow> (Stopped, a)
                   | Inr s9 \<Rightarrow> (Completed, disableCounterElectrode s9))))"
    by blast
  have hb: "high_bleach s i (adc e (reads s + i) ?p)"
    using ph out by (simp add: high_bleach_def)
  then have rbT: "rb" using rb i by blast
  have n6i: "m_refreshSegmentNeeded s6 ! i"
    using n6 i hb by (simp add: classified_def)
  let ?s6 = "enableCounterElectrode H (refreshBleachingVoltage (m_cfg s6)) s6"
  have fr6: "refresh_frame s ?s6"
    using f6(2) refresh_frame_hw(2) by (blast intro: refresh_frame_trans)
  note ff6 = refresh_frame_facts [OF fr6]
  have g6: "\<not> m_stopDrivingFlag ?s6" "i < nat (m_numberOfSegments ?s6)"
    "m_currentState ?s6 ! i = SEGMENT_STATE_BLEACH"
    "\<forall>k. m_refreshBleachLimitL ?s6 < real_of_int (adc e k (m_segmentPinsList ?s6 ! i))"
    "m_refreshSegmentNeeded ?s6 ! i" "m_segmentPinsList ?s6 ! i = ?p"
    using f6(1) i ph out ff6(1,3,4) n6i
    by (simp_all add: world_steps setup_eq_def enableCounterElectrode_eq)
  from bleach_while_always [OF calm g6(1) ff6(6) [OF wf] ff6(7) [OF dp] g6(2,3,4), of 0 H] M0
  obtain s7 where w7: "refresh_bleach_while H e True 0 ?s6 = Inr s7"
    and f7: "\<not> m_stopDrivingFlag s7" "refresh_frame ?s6 s7"
    and p7: "pulses ?p LOW s7 = pulses ?p LOW ?s6 + nat (MAX_REFRESH_RETRIES H) + 1"
    and n7: "m_refreshSegmentNeeded s7 ! i"
    using g6(5,6) by auto
  let ?s8 = "enableCounterElectrode H (m_supplyVoltage s7 - refreshColoringVoltage (m_cfg s7)) s7"
  have fr8: "refresh_frame s ?s8"
    using fr6 f7(2) refresh_frame_hw(2) by (blast intro: refresh_frame_trans)
  note ff8 = refresh_frame_facts [OF fr8]
  have g8: "\<not> m_stopDrivingFlag ?s8" "i < nat (m_numberOfSegments ?s8)"
    "m_segmentPinsList ?s8 ! i = ?p" "m_refreshSegmentNeeded ?s8 ! i"
    using f7(1) i ff8(1,3) n7
    by (simp_all add: world_steps setup_eq_def enableCounterElectrode_eq)
  from color_while_still [OF calm g8(1) ff8(6) [OF wf] ff8(7) [OF dp] g8(2),
      of LOW "m_refreshColorLimitH s7" H rc 0]
  obtain s9 where w9: "refresh_color_while H e (m_refreshColorLimitH s7) rc 0 ?s8 = Inr s9"
    and f9: "\<not> m_stopDrivingFlag s9" "refresh_frame ?s8 s9"
    and p9: "pulses ?p LOW s9 = pulses ?p LOW ?s8"
    using g8(3) by auto
  have n9: "m_refreshSegmentNeeded s9 ! i"
    using refresh_frame_facts(8) [OF f9(2), of i] g8(4) ff8(5) well_formed_index(2) [OF wf i]
    by simp
  have "refreshDisplay H e s = (Completed, disableCounterElectrode s9)"
    using run rbT w7 w9 by simp
  moreover have "pulses ?p LOW (disableCounterElectrode s9)
                   = pulses ?p LOW s + nat (MAX_REFRESH_RETRIES H) + 1"
    using p9 p7 p6 by (simp add: world_steps)
  moreover have "m_refreshSegmentNeeded (disableCounterElectrode s9) ! i"
    using n9 by (simp add: disableCounterElectrode_eq)
  ultimately show ?thesis
    using f9(1) by (simp add: world_steps)
qed

lemma refresh_color_out:
  assumes calm: "calm e" and nf: "\<not> m_stopDrivingFlag s" and wf: "well_formed s"
    and dp: "distinct_pins s" and i: "i < nat (m_numberOfSegments s)"
    and M0: "0 \<le> MAX_REFRESH_RETRIES H"
    and ph: "m_currentState s ! i = SEGMENT_STATE_COLOR"
    and out: "\<forall>k. real_of_int (adc e k (m_segmentPinsList s ! i)) < m_refreshColorLimitL s
                \<and> real_of_int (adc e k (m_segmentPinsList s ! i)) < m_refreshColorLimitH s"
  shows "\<exists>s'. refreshDisplay H e s = (Completed, s') \<and> \<not> m_stopDrivingFlag s'
           \<and> pulses (m_segmentPinsList s ! i) HIGH s'
                = pulses (m_segmentPinsList s ! i) HIGH s + nat (MAX_REFRESH_RETRIES H) + 1
           \<and> m_refreshSegmentNeeded s' ! i"
proof -
  let ?p = "m_segmentPinsList s ! i"
  from refreshDisplay_track [OF calm nf wf, of H]
  obtain rc rb s6 where f6: "\<not> m_stopDrivingFlag s6" "refresh_frame s s6"
    and p6: "\<forall>p l. pulses p l s6 = pulses p l s"
    and rc: "rc = (\<exists>x<nat (m_numberOfSegments s).
                low_color s x (adc e (reads s + x) (m_segmentPinsList s ! x)))"
    and n6: "\<forall>x<nat (m_numberOfSegments s).
            m_refreshSegmentNeeded s6 ! x = (m_refreshSegmentNeeded s ! x \<or> classified e s x)"
    and run: "refreshDisplay H e s =
          (if \<not> (rb \<or> rc) then (Completed, s6)
           else
             (case refresh_bleach_while H e rb 0
                     (enableCounterElectrode H (refreshBleachingVoltage (m_cfg s6)) s6) of
                Inl a \<Rightarrow> (Stopped, a)
              | Inr s7 \<Rightarrow>
                  (case refresh_color_while H e (m_refreshColorLimitH s7) rc 0
                          (enableCounterElectrode H
                             (m_supplyVoltage s7 - refreshColoringVoltage (m_cfg s7)) s7) of
                     Inl a \<Rightarrow> (Stopped, a)
                   | Inr s9 \<Rightarrow> (Completed, disableCounterElectrode s9))))"
    by blast
  have lc: "low_color s i (adc e (reads s + i) ?p)"
    using ph out by (simp add: low_color_def)
  then have rcT: "rc" using rc i by blast
  have n6i: "m_refreshSegmentNeeded s6 ! i"
    using n6 i lc by (simp add: classified_def)
  let ?s6 = "enableCounterElectrode H (refreshBleachingVoltage (m_cfg s6)) s6"
  have fr6: "refresh_frame s ?s6"
    using f6(2) refresh_frame_hw(2) by (blast intro: refresh_frame_trans)
  note ff6 = refresh_frame_facts [OF fr6]
  have g6: "\<not> m_stopDrivingFlag ?s6" "i < nat (m_numberOfSegments ?s6)"
    "m_refreshSegmentNeeded ?s6 ! i" "m_segmentPinsList ?s6 ! i = ?p"
    using f6(1) i ff6(1,3) n6i
    by (simp_all add: world_steps setup_eq_def enableCounterElectrode_eq)
  from bleach_while_still [OF calm g6(1) ff6(6) [OF wf] ff6(7) [OF dp] g6(2), of HIGH H rb 0]
  obtain s7 where w7: "refresh_bleach_while H e rb 0 ?s6 = Inr s7"
    and f7: "\<not> m_stopDrivingFlag s7" "refresh_frame ?s6 s7"
    and p7: "pulses ?p HIGH s7 = pulses ?p HIGH ?s6"
    using g6(4) by auto
  have n7: "m_refreshSegmentNeeded s7 ! i"
    using refresh_frame_facts(8) [OF f7(2), of i] g6(3) ff6(5) well_formed_index(2) [OF wf i]
    by simp
  let ?s8 = "enableCounterElectrode H (m_supplyVoltage s7 - refreshColoringVoltage (m_cfg s7)) s7"
  have fr7: "refresh_frame s s7"
    using fr6 f7(2) by (blast intro: refresh_frame_trans)
  have fr8: "refresh_frame s ?s8"
    using fr7 refresh_frame_hw(2) by (blast intro: refresh_frame_trans)
  note ff8 = refresh_frame_facts [OF fr8]
  have ch: "m_refreshColorLimitH s7 = m_refreshColorLimitH s"
    using refresh_frame_facts(1) [OF fr7] by (simp add: setup_eq_def)
  have g8: "\<not> m_stopDrivingFlag ?s8" "i < nat (m_numberOfSegments ?s8)"
    "m_segmentPinsList ?s8 ! i = ?p" "m_refreshSegmentNeeded ?s8 ! i"
    "m_currentState ?s8 ! i = SEGMENT_STATE_COLOR"
    "\<forall>k. real_of_int (adc e k (m_segmentPinsList ?s8 ! i)) < m_refreshColorLimitH s7"
    using f7(1) i ff8(1,3,4) n7 ph out ch
    by (simp_all add: world_steps setup_eq_def enableCounterElectrode_eq)
  from color_while_always [OF calm g8(1) ff8(6) [OF wf] ff8(7) [OF dp] g8(2,5,6), of 0 H] M0
  obtain s9 where w9: "refresh_color_while H e (m_refreshColorLimitH s7) True 0 ?s8 = Inr s9"
    and f9: "\<not> m_stopDrivingFlag s9" "refresh_frame ?s8 s9"
    and p9: "pulses ?p HIGH s9 = pulses ?p HIGH ?s8 + nat (MAX_REFRESH_RETRIES H) + 1"
    and n9: "m_refreshSegmentNeeded s9 ! i"
    using g8(3,4) by auto
  have "refreshDisplay H e s = (Completed, disableCounterElectrode s9)"
    using run rcT w7 w9 by simp
  moreover have "pulses ?p HIGH (disableCounterElectrode s9)
                   = pulses ?p HIGH s + nat (MAX_REFRESH_RETRIES H) + 1"
    using p9 p7 p6 by (simp add: world_steps)
  moreover have "m_refreshSegmentNeeded (disableCounterElectrode s9) ! i"
    using n9 by (simp add: disableCounterElectrode_eq)
  ultimately show ?thesis
    using f9(1) by (simp add: world_steps)
qed

lemma recheck_for_trace:
  assumes "calm e" and "\<not> m_stopDrivingFlag s"
  shows "\<exists>nd' s'. recheck_for e phase beyond retries maxr is nd s = Inr (nd', s')
           \<and> trace s' = trace s @ concat (map (sample_events phase retries maxr s) is)"
  using assms
proof (induction "is" arbitrary: nd s)
  case Nil
  then show ?case by simp
next
  case (Cons j "is")
  let ?a = "s\<lparr>polls := Suc (polls s)\<rparr>"
  let ?b = "s\<lparr>polls := Suc (polls s),
               trace := trace s @ [PinMode (m_segmentPinsList s ! j) INPUT,
                                   AnalogRead (m_segmentPinsList s ! j)],
               reads := Suc (reads s)\<rparr>"
  let ?c = "s\<lparr>polls := Suc (polls s),
               trace := trace s @ [PinMode (m_segmentPinsList s ! j) INPUT,
                                   AnalogRead (m_segmentPinsList s ! j)],
               reads := Suc (reads s),
               m_refreshSegmentNeeded := (m_refreshSegmentNeeded s)[j := True]\<rparr>"
  have se: "sample_events phase retries maxr ?a = sample_events phase retries maxr s"
    "sample_events phase retries maxr ?b = sample_events phase retries maxr s"
    "sample_events phase retries maxr ?c = sample_events phase retries maxr s"
    by (simp_all add: sample_events_def fun_eq_iff)
  show ?case
    unfolding recheck_for_step [OF Cons.prems]
    using Cons.IH [OF Cons.prems(1), of ?a nd] Cons.IH [OF Cons.prems(1), of ?b nd]
      Cons.IH [OF Cons.prems(1), of ?c True] Cons.prems(2)
    unfolding se
    by (auto simp: sample_events_def [of phase retries maxr s j] split: if_splits)
qed

lemma count_sample_events_other:
  assumes "\<forall>j\<in>set is. m_segmentPinsList s ! j \<noteq> p"
  shows "count_list (concat (map (sample_events phase r m s) is)) (AnalogRead p) = 0"
  using assms by (induction "is") (simp_all add: sample_events_def)

lemma count_sample_events:
  assumes "distinct (map (\<lambda>j. m_segmentPinsList s ! j) is)" and "i \<in> set is"
  shows "count_list (concat (map (sample_events phase r m s) is))
            (AnalogRead (m_segmentPinsList s ! i))
           = (if m_currentState s ! i = phase \<and> r < m then 1 else 0)"
  using assms
proof (induction "is")
  case Nil
  then show ?case by simp
next
  case (Cons j "is")
  show ?case
  proof (cases "j = i")
    case True
    have "m_segmentPinsList s ! i \<notin> (\<lambda>k. m_segmentPinsList s ! k) ` set is"
      using Cons.prems(1) True by simp
    then have "\<forall>k\<in>set is. m_segmentPinsList s ! k \<noteq> m_segmentPinsList s ! i"
      by (metis imageI)
    from count_sample_events_other [OF this, of phase r m] True
    show ?thesis by (simp add: sample_events_def [of phase r m s i])
  next
    case False
    then have "i \<in> set is" "m_segmentPinsList s ! j \<noteq> m_segmentPinsList s ! i"
      using Cons.prems by auto
    then show ?thesis
      using Cons.IH Cons.prems(1) by (simp add: sample_events_def [of phase r m s j])
  qed
qed

lemma count_reads_in_pulses:
  "count_list (concat (map (pulse_events phase lv s) is)) (AnalogRead p) = 0"
  by (induction "is") (simp_all add: pulse_events_def)

lemma count_reads_in_float: "count_list (float_events s) (AnalogRead p) = 0"
  by (simp add: float_events_def count_list_0_iff image_iff)

lemma round_core_samples:
  assumes calm: "calm e" and nf: "\<not> m_stopDrivingFlag s"
    and wf: "well_formed s" and dp: "distinct_pins s" and i: "i < nat (m_numberOfSegments s)"
    and rc: "round_core e phase lv beyond r M ms s = Inr (nd', s')"
  shows "samples (m_segmentPinsList s ! i) s'
           = samples (m_segmentPinsList s ! i) s
             + (if m_currentState s ! i = phase \<and> r < M then 1 else 0)"
proof -
  let ?s1 = "after_pulses phase lv ms s"
  have nf1: "\<not> m_stopDrivingFlag ?s1"
    using nf by (simp add: after_pulses_facts)
  from rc obtain s5
    where r: "recheck_for e phase beyond r M (segments s) False ?s1 = Inr (nd', s5)"
      and s': "s' = delay 500 s5"
    by (auto simp: round_core_def split: sum.splits)
  from recheck_for_trace [OF calm nf1, of phase beyond r M "segments s" False] r
  have t5: "trace s5 = trace ?s1 @ concat (map (sample_events phase r M ?s1) (segments s))"
    by auto
  have se: "sample_events phase r M ?s1 = sample_events phase r M s"
    by (simp add: sample_events_def fun_eq_iff after_pulses_facts)
  have "samples (m_segmentPinsList s ! i) s5
          = samples (m_segmentPinsList s ! i) s
            + count_list (concat (map (sample_events phase r M s) (segments s)))
                (AnalogRead (m_segmentPinsList s ! i))"
    unfolding samples_def t5 se
    by (simp add: after_pulses_def count_reads_in_pulses count_reads_in_float)
  then show ?thesis
    using count_sample_events [OF dp [unfolded distinct_pins_def] well_formed_index(1) [OF wf i],
        of phase r M]
    by (simp add: s' samples_def delay_def)
qed

lemma retry_loop_reads:
  fixes W :: "bool \<Rightarrow> int \<Rightarrow> driver \<Rightarrow> driver + driver"
    and R :: "int \<Rightarrow> driver \<Rightarrow> driver + bool \<times> driver"
    and c :: "driver \<Rightarrow> nat"
  assumes unfold: "\<And>nd r s. W nd r s =
            (if \<not> nd then Inr s
             else (case R r s of Inl a \<Rightarrow> Inl a | Inr (nd', s1) \<Rightarrow> W nd' (r + 1) s1))"
    and round: "\<And>r s. I s \<Longrightarrow> \<exists>nd' s'. R r s = Inr (nd', s') \<and> I s'
                  \<and> c s' = c s + (if r < M then 1 else 0)
                  \<and> (r < M \<longrightarrow> nd') \<and> (\<not> r < M \<longrightarrow> \<not> nd')"
    and start: "I s" and le: "r \<le> M"
  shows "\<exists>s'. W True r s = Inr s' \<and> I s' \<and> c s' = c s + nat (M - r)"
  using start le
proof (induction "nat (M - r)" arbitrary: r s)
  case 0
  then have eq: "r = M" by simp
  from round [OF "0.prems"(1), of r] obtain nd' s1
    where r1: "R r s = Inr (nd', s1)" and i1: "I s1"
      and c1: "c s1 = c s + (if r < M then 1 else 0)"
      and n1: "\<not> r < M \<longrightarrow> \<not> nd'"
    by blast
  have "W True r s = Inr s1"
    using r1 n1 eq unfold [of True r s] unfold [of False "r + 1" s1] by simp
  then show ?case
    using i1 c1 eq by simp
next
  case (Suc n)
  then have lt: "r < M" by simp
  from round [OF Suc.prems(1), of r] obtain nd' s1
    where r1: "R r s = Inr (nd', s1)" and i1: "I s1"
      and c1: "c s1 = c s + (if r < M then 1 else 0)"
      and n1: "r < M \<longrightarrow> nd'"
    by blast
  have step: "W True r s = W True (r + 1) s1"
    using r1 n1 lt unfold [of True r s] by simp
  have "n = nat (M - (r + 1))" "r + 1 \<le> M"
    using Suc.hyps(2) lt by simp_all
  from Suc.hyps(1) [OF this(1) i1 this(2)] obtain s'
    where w: "W True (r + 1) s1 = Inr s'" and i': "I s'"
      and c': "c s' = c s1 + nat (M - (r + 1))"
    by blast
  have "nat (M - r) = Suc (nat (M - (r + 1)))"
    using lt by simp
  then show ?case
    unfolding step using w i' c' c1 lt by simp
qed

lemma loop_samples_always:
  fixes W :: "bool \<Rightarrow> int \<Rightarrow> driver \<Rightarrow> driver + driver"
    and R :: "int \<Rightarrow> driver \<Rightarrow> driver + bool \<times> driver"
  assumes unfold: "\<And>nd r s. W nd r s =
            (if \<not> nd then Inr s
             else (case R r s of Inl a \<Rightarrow> Inl a | Inr (nd', s1) \<Rightarrow> W nd' (r + 1) s1))"
    and rc: "\<And>r s. \<not> m_stopDrivingFlag s \<Longrightarrow> R r s = round_core e phase lv beyond r M (ms s) s"
    and calm: "calm e" and nf: "\<not> m_stopDrivingFlag s0"
    and wf: "well_formed s0" and dp: "distinct_pins s0" and i: "i < nat (m_numberOfSegments s0)"
    and ph: "m_currentState s0 ! i = phase"
    and bey: "\<forall>k s''. setup_eq s0 s'' \<longrightarrow> beyond s'' (adc e k (m_segmentPinsList s0 ! i))"
    and le: "r \<le> M"
  shows "\<exists>s'. W True r s0 = Inr s'
           \<and> samples (m_segmentPinsList s0 ! i) s'
                = samples (m_segmentPinsList s0 ! i) s0 + nat (M - r)"
proof -
  define I where "I s \<longleftrightarrow> \<not> m_stopDrivingFlag s \<and> refresh_frame s0 s" for s :: driver
  define c where "c s = samples (m_segmentPinsList s0 ! i) s" for s :: driver
  have round: "\<exists>nd' s'. R r s = Inr (nd', s') \<and> I s'
                  \<and> c s' = c s + (if r < M then 1 else 0)
                  \<and> (r < M \<longrightarrow> nd') \<and> (\<not> r < M \<longrightarrow> \<not> nd')" if "I s" for r s
  proof -
    from that have nfs: "\<not> m_stopDrivingFlag s" and fr: "refresh_frame s0 s"
      by (simp_all add: I_def)
    note ff = refresh_frame_facts [OF fr]
    have ii: "i < nat (m_numberOfSegments s)"
      using i ff(1) by (simp add: setup_eq_def)
    have bs: "\<forall>k s''. setup_eq s s'' \<longrightarrow> beyond s'' (adc e k (m_segmentPinsList s ! i))"
      using bey ff(1,3) by (auto intro: setup_eq_trans)
    from round_core_segment [OF calm nfs ff(6) [OF wf] ff(7) [OF dp] ii,
        of phase lv beyond r M "ms s" lv]
    obtain nd' s' where r1: "round_core e phase lv beyond r M (ms s) s = Inr (nd', s')"
      and f1: "\<not> m_stopDrivingFlag s'" "refresh_frame s s'" "nd' \<longrightarrow> r < M"
      and m1: "r < M \<and> m_currentState s ! i = phase
                \<and> (\<forall>k s''. setup_eq s s'' \<longrightarrow> beyond s'' (adc e k (m_segmentPinsList s ! i)))
                \<longrightarrow> nd' \<and> m_refreshSegmentNeeded s' ! i"
      by blast
    from round_core_samples [OF calm nfs ff(6) [OF wf] ff(7) [OF dp] ii r1]
    have "c s' = c s + (if r < M then 1 else 0)"
      using ph ff(3,4) by (simp add: c_def)
    then show ?thesis
      using rc [OF nfs, of r] r1 f1 m1 ph bs ff(4) fr
      by (auto simp: I_def intro: refresh_frame_trans)
  qed
  have "I s0"
    using nf by (simp add: I_def refresh_frame_refl)
  from retry_loop_reads [of W R I c M, OF unfold round this le]
  show ?thesis
    by (auto simp: c_def)
qed

lemma loop_samples_other:
  fixes W :: "bool \<Rightarrow> int \<Rightarrow> driver \<Rightarrow> driver + driver"
    and R :: "int \<Rightarrow> driver \<Rightarrow> driver + bool \<times> driver"
  assumes unfold: "\<And>nd r s. W nd r s =
            (if \<not> nd then Inr s
             else (case R r s of Inl a \<Rightarrow> Inl a | Inr (nd', s1) \<Rightarrow> W nd' (r + 1) s1))"
    and rc: "\<And>r s. \<not> m_stopDrivingFlag s \<Longrightarrow> R r s = round_core e phase lv beyond r M (ms s) s"
    and calm: "calm e" and nf: "\<not> m_stopDrivingFlag s0"
    and wf: "well_formed s0" and dp: "distinct_pins s0" and i: "i < nat (m_numberOfSegments s0)"
    and ph: "m_currentState s0 ! i \<noteq> phase"
  shows "\<exists>s'. W nd r s0 = Inr s'
           \<and> samples (m_segmentPinsList s0 ! i) s' = samples (m_segmentPinsList s0 ! i) s0"
proof -
  define J where "J s \<longleftrightarrow> \<not> m_stopDrivingFlag s \<and> refresh_frame s0 s
      \<and> samples (m_segmentPinsList s0 ! i) s = samples (m_segmentPinsList s0 ! i) s0"
    for s :: driver
  have round: "\<exists>nd' s'. R r s = Inr (nd', s') \<and> J s' \<and> (nd' \<longrightarrow> r < M)" if "J s" for r s
  proof -
    from that have nfs: "\<not> m_stopDrivingFlag s" and fr: "refresh_frame s0 s"
      and cs: "samples (m_segmentPinsList s0 ! i) s = samples (m_segmentPinsList s0 ! i) s0"
      by (simp_all add: J_def)
    note ff = refresh_frame_facts [OF fr]
    have ii: "i < nat (m_numberOfSegments s)"
      using i ff(1) by (simp add: setup_eq_def)
    from round_core_segment [OF calm nfs ff(6) [OF wf] ff(7) [OF dp] ii,
        of phase lv beyond r M "ms s" lv]
    obtain nd' s' where r1: "round_core e phase lv beyond r M (ms s) s = Inr (nd', s')"
      and f1: "\<not> m_stopDrivingFlag s'" "refresh_frame s s'" "nd' \<longrightarrow> r < M"
      by blast
    from round_core_samples [OF calm nfs ff(6) [OF wf] ff(7) [OF dp] ii r1]
    have "samples (m_segmentPinsList s0 ! i) s' = samples (m_segmentPinsList s0 ! i) s"
      using ph ff(3,4) by simp
    then show ?thesis
      using rc [OF nfs, of r] r1 f1 cs fr
      by (auto simp: J_def intro: refresh_frame_trans)
  qed
  have "J s0"
    using nf by (simp add: J_def refresh_frame_refl)
  from retry_loop_inv [of W R J M, OF unfold round this]
  show ?thesis
    by (auto simp: J_def)
qed

lemma bleach_while_samples:
  assumes calm: "calm e" and nf: "\<not> m_stopDrivingFlag s0"
    and wf: "well_formed s0" and dp: "distinct_pins s0" and i: "i < nat (m_numberOfSegments s0)"
    and ph: "m_currentState s0 ! i = SEGMENT_STATE_BLEACH"
    and bey: "\<forall>k. m_refreshBleachLimitL s0 < real_of_int (adc e k (m_segmentPinsList s0 ! i))"
    and le: "r \<le> MAX_REFRESH_RETRIES H"
  shows "\<exists>s'. refresh_bleach_while H e True r s0 = Inr s'
           \<and> samples (m_segmentPinsList s0 ! i) s'
                = samples (m_segmentPinsList s0 ! i) s0 + nat (MAX_REFRESH_RETRIES H - r)"
proof -
  have b: "\<forall>k s''. setup_eq s0 s'' \<longrightarrow>
             m_refreshBleachLimitL s'' < real_of_int (adc e k (m_segmentPinsList s0 ! i))"
    using bey by (simp add: setup_eq_def)
  show ?thesis
    by (rule loop_samples_always [of "refresh_bleach_while H e" "refresh_bleach_round H e" e
          SEGMENT_STATE_BLEACH LOW "\<lambda>s a. real_of_int a > m_refreshBleachLimitL s"
          "MAX_REFRESH_RETRIES H" "\<lambda>s. refreshBleachPulseTime (m_cfg s)",
          OF refresh_bleach_while.simps bleach_round_core [OF calm] calm nf wf dp i ph b le])
qed

lemma bleach_while_samples_other:
  assumes calm: "calm e" and nf: "\<not> m_stopDrivingFlag s0"
    and wf: "well_formed s0" and dp: "distinct_pins s0" and i: "i < nat (m_numberOfSegments s0)"
    and ph: "m_currentState s0 ! i \<noteq> SEGMENT_STATE_BLEACH"
  shows "\<exists>s'. refresh_bleach_while H e nd r s0 = Inr s'
           \<and> samples (m_segmentPinsList s0 ! i) s' = samples (m_segmentPinsList s0 ! i) s0"
  by (rule loop_samples_other [of "refresh_bleach_while H e" "refresh_bleach_round H e" e
        SEGMENT_STATE_BLEACH LOW "\<lambda>s a. real_of_int a > m_refreshBleachLimitL s"
        "MAX_REFRESH_RETRIES H" "\<lambda>s. refreshBleachPulseTime (m_cfg s)",
        OF refresh_bleach_while.simps bleach_round_core [OF calm] calm nf wf dp i ph])

lemma color_while_samples:
  assumes calm: "calm e" and nf: "\<not> m_stopDrivingFlag s0"
    and wf: "well_formed s0" and dp: "distinct_pins s0" and i: "i < nat (m_numberOfSegments s0)"
    and ph: "m_currentState s0 ! i = SEGMENT_STATE_COLOR"
    and bey: "\<forall>k. real_of_int (adc e k (m_segmentPinsList s0 ! i)) < cl"
    and le: "r \<le> MAX_REFRESH_RETRIES H"
  shows "\<exists>s'. refresh_color_while H e cl True r s0 = Inr s'
           \<and> samples (m_segmentPinsList s0 ! i) s'
                = samples (m_segmentPinsList s0 ! i) s0 + nat (MAX_REFRESH_RETRIES H - r)"
proof -
  have b: "\<forall>k s''. setup_eq s0 s'' \<longrightarrow>
             real_of_int (adc e k (m_segmentPinsList s0 ! i)) < cl"
    using bey by simp
  show ?thesis
    by (rule loop_samples_always [of "refresh_color_while H e cl" "refresh_color_round H e cl" e
          SEGMENT_STATE_COLOR HIGH "\<lambda>s a. real_of_int a < cl"
          "MAX_REFRESH_RETRIES H" "\<lambda>s. refreshColorPulseTime (m_cfg s)",
          OF refresh_color_while.simps color_round_core [OF calm] calm nf wf dp i ph b le])
qed

lemma color_while_samples_other:
  assumes calm: "calm e" and nf: "\<not> m_stopDrivingFlag s0"
    and wf: "well_formed s0" and dp: "distinct_pins s0" and i: "i < nat (m_numberOfSegments s0)"
    and ph: "m_currentState s0 ! i \<noteq> SEGMENT_STATE_COLOR"
  shows "\<exists>s'. refresh_color_while H e cl nd r s0 = Inr s'
           \<and> samples (m_segmentPinsList s0 ! i) s' = samples (m_segmentPinsList s0 ! i) s0"
  by (rule loop_samples_other [of "refresh_color_while H e cl" "refresh_color_round H e cl" e
        SEGMENT_STATE_COLOR HIGH "\<lambda>s a. real_of_int a < cl"
        "MAX_REFRESH_RETRIES H" "\<lambda>s. refreshColorPulseTime (m_cfg s)",
        OF refresh_color_while.simps color_round_core [OF calm] calm nf wf dp i ph])

lemma samples_steps:
  "samples p (s\<lparr>polls := n\<rparr>) = samples p s"
  "samples p (enableCounterElectrode H v s) = samples p s"
  "samples p (disableCounterElectrode s) = samples p s"
  by (simp_all add: samples_def enableCounterElectrode_eq disableCounterElectrode_eq)

lemma refresh_bleach_out_samples:
  assumes calm: "calm e" and nf: "\<not> m_stopDrivingFlag s" and wf: "well_formed s"
    and dp: "distinct_pins s" and i: "i < nat (m_numberOfSegments s)"
    and M0: "0 \<le> MAX_REFRESH_RETRIES H"
    and ph: "m_currentState s ! i = SEGMENT_STATE_BLEACH"
    and out: "\<forall>k. m_refreshBleachLimitH s < real_of_int (adc e k (m_segmentPinsList s ! i))
                \<and> m_refreshBleachLimitL s < real_of_int (adc e k (m_segmentPinsList s ! i))"
  shows "\<exists>s'. refreshDisplay H e s = (Completed, s')
           \<and> samples (m_segmentPinsList s ! i) s'
                = samples (m_segmentPinsList s ! i) s + nat (MAX_REFRESH_RETRIES H) + 1"
proof -
  let ?p = "m_segmentPinsList s ! i"
  from refreshDisplay_track [OF calm nf wf, of H]
  obtain rc rb s6 where f6: "\<not> m_stopDrivingFlag s6" "refresh_frame s s6"
    and rb: "rb = (\<exists>x<nat (m_numberOfSegments s).
                high_bleach s x (adc e (reads s + x) (m_segmentPinsList s ! x)))"
    and c6: "distinct_pins s \<longrightarrow> (\<forall>x<nat (m_numberOfSegments s).
            samples (m_segmentPinsList s ! x) s6 = samples (m_segmentPinsList s ! x) s + 1)"
    and run: "refreshDisplay H e s =
          (if \<not> (rb \<or> rc) then (Completed, s6)
           else
             (case refresh_bleach_while H e rb 0
                     (enableCounterElectrode H (refreshBleachingVoltage (m_cfg s6)) s6) of
                Inl a \<Rightarrow> (Stopped, a)
              | Inr s7 \<Rightarrow>
                  (case refresh_color_while H e (m_refreshColorLimitH s7) rc 0
                          (enableCounterElectrode H
                             (m_supplyVoltage s7 - refreshColoringVoltage (m_cfg s7)) s7) of
                     Inl a \<Rightarrow> (Stopped, a)
                   | Inr s9 \<Rightarrow> (Completed, disableCounterElectrode s9))))"
    by blast
  have hb: "high_bleach s i (adc e (reads s + i) ?p)"
    using ph out by (simp add: high_bleach_def)
  then have rbT: "rb" using rb i by blast
  let ?s6 = "enableCounterElectrode H (refreshBleachingVoltage (m_cfg s6)) s6"
  have fr6: "refresh_frame s ?s6"
    using f6(2) refresh_frame_hw(2) by (blast intro: refresh_frame_trans)
  note ff6 = refresh_frame_facts [OF fr6]
  have g6: "\<not> m_stopDrivingFlag ?s6" "i < nat (m_numberOfSegments ?s6)"
    "m_currentState ?s6 ! i = SEGMENT_STATE_BLEACH"
    "\<forall>k. m_refreshBleachLimitL ?s6 < real_of_int (adc e k (m_segmentPinsList ?s6 ! i))"
    "m_segmentPinsList ?s6 ! i = ?p"
    using f6(1) i ph out ff6(1,3,4)
    by (simp_all add: world_steps setup_eq_def enableCounterElectrode_eq)
  from bleach_while_always [OF calm g6(1) ff6(6) [OF wf] ff6(7) [OF dp] g6(2,3,4), of 0 H] M0
  obtain s7 where w7: "refresh_bleach_while H e True 0 ?s6 = Inr s7"
    and f7: "\<not> m_stopDrivingFlag s7" "refresh_frame ?s6 s7"
    by auto
  from bleach_while_samples [OF calm g6(1) ff6(6) [OF wf] ff6(7) [OF dp] g6(2,3,4), of 0 H] M0 w7
  have c7: "samples ?p s7 = samples ?p ?s6 + nat (MAX_REFRESH_RETRIES H)"
    using g6(5) by auto
  let ?s8 = "enableCounterElectrode H (m_supplyVoltage s7 - refreshColoringVoltage (m_cfg s7)) s7"
  have fr8: "refresh_frame s ?s8"
    using fr6 f7(2) refresh_frame_hw(2) by (blast intro: refresh_frame_trans)
  note ff8 = refresh_frame_facts [OF fr8]
  have g8: "\<not> m_stopDrivingFlag ?s8" "i < nat (m_numberOfSegments ?s8)"
    "m_segmentPinsList ?s8 ! i = ?p" "m_currentState ?s8 ! i \<noteq> SEGMENT_STATE_COLOR"
    using f7(1) i ff8(1,3,4) ph
    by (simp_all add: world_steps setup_eq_def enableCounterElectrode_eq)
  from color_while_samples_other [OF calm g8(1) ff8(6) [OF wf] ff8(7) [OF dp] g8(2,4),
      of H "m_refreshColorLimitH s7" rc 0]
  obtain s9 where w9: "refresh_color_while H e (m_refreshColorLimitH s7) rc 0 ?s8 = Inr s9"
    and c9: "samples ?p s9 = samples ?p ?s8"
    using g8(3) by auto
  have "refreshDisplay H e s = (Completed, disableCounterElectrode s9)"
    using run rbT w7 w9 by simp
  moreover have "samples ?p (disableCounterElectrode s9)
                   = samples ?p s + nat (MAX_REFRESH_RETRIES H) + 1"
    using c9 c7 c6 dp i by (simp add: samples_steps)
  ultimately show ?thesis by simp
qed

lemma refresh_color_out_samples:
  assumes calm: "calm e" and nf: "\<not> m_stopDrivingFlag s" and wf: "well_formed s"
    and dp: "distinct_pins s" and i: "i < nat (m_numberOfSegments s)"
    and M0: "0 \<le> MAX_REFRESH_RETRIES H"
    and ph: "m_currentState s ! i = SEGMENT_STATE_COLOR"
    and out: "\<forall>k. real_of_int (adc e k (m_segmentPinsList s ! i)) < m_refreshColorLimitL s
                \<and> real_of_int (adc e k (m_segmentPinsList s ! i)) < m_refreshColorLimitH s"
  shows "\<exists>s'. refreshDisplay H e s = (Completed, s')
           \<and> samples (m_segmentPinsList s ! i) s'
                = samples (m_segmentPinsList s ! i) s + nat (MAX_REFRESH_RETRIES H) + 1"
proof -
  let ?p = "m_segmentPinsList s ! i"
  from refreshDisplay_track [OF calm nf wf, of H]
  obtain rc rb s6 where f6: "\<not> m_stopDrivingFlag s6" "refresh_frame s s6"
    and rc: "rc = (\<exists>x<nat (m_numberOfSegments s).
                low_color s x (adc e (reads s + x) (m_segmentPinsList s ! x)))"
    and c6: "distinct_pins s \<longrightarrow> (\<forall>x<nat (m_numberOfSegments s).
            samples (m_segmentPinsList s ! x) s6 = samples (m_segmentPinsList s ! x) s + 1)"
    and run: "refreshDisplay H e s =
          (if \<not> (rb \<or> rc) then (Completed, s6)
           else
             (case refresh_bleach_while H e rb 0
                     (enableCounterElectrode H (refreshBleachingVoltage (m_cfg s6)) s6) of
                Inl a \<Rightarrow> (Stopped, a)
              | Inr s7 \<Rightarrow>
                  (case refresh_color_while H e (m_refreshColorLimitH s7) rc 0
                          (enableCounterElectrode H
                             (m_supplyVoltage s7 - refreshColoringVoltage (m_cfg s7)) s7) of
                     Inl a \<Rightarrow> (Stopped, a)
                   | Inr s9 \<Rightarrow> (Completed, disableCounterElectrode s9))))"
    by blast
  have lc: "low_color s i (adc e (reads s + i) ?p)"
    using ph out by (simp add: low_color_def)
  then have rcT: "rc" using rc i by blast
  let ?s6 = "enableCounterElectrode H (refreshBleachingVoltage (m_cfg s6)) s6"
  have fr6: "refresh_frame s ?s6"
    using f6(2) refresh_frame_hw(2) by (blast intro: refresh_frame_trans)
  note ff6 = refresh_frame_facts [OF fr6]
  have g6: "\<not> m_stopDrivingFlag ?s6" "i < nat (m_numberOfSegments ?s6)"
    "m_segmentPinsList ?s6 ! i = ?p" "m_currentState ?s6 ! i \<noteq> SEGMENT_STATE_BLEACH"
    using f6(1) i ff6(1,3,4) ph
    by (simp_all add: world_steps setup_eq_def enableCounterElectrode_eq)
  from bleach_while_still [OF calm g6(1) ff6(6) [OF wf] ff6(7) [OF dp] g6(2), of HIGH H rb 0]
  obtain s7 where w7: "refresh_bleach_while H e rb 0 ?s6 = Inr s7"
    and f7: "\<not> m_stopDrivingFlag s7" "refresh_frame ?s6 s7"
    by auto
  from bleach_while_samples_other [OF calm g6(1) ff6(6) [OF wf] ff6(7) [OF dp] g6(2,4), of H rb 0] w7
  have c7: "samples ?p s7 = samples ?p ?s6"
    using g6(3) by auto
  let ?s8 = "enableCounterElectrode H (m_supplyVoltage s7 - refreshColoringVoltage (m_cfg s7)) s7"
  have fr7: "refresh_frame s s7"
    using fr6 f7(2) by (blast intro: refresh_frame_trans)
  have fr8: "refresh_frame s ?s8"
    using fr7 refresh_frame_hw(2) by (blast intro: refresh_frame_trans)
  note ff8 = refresh_frame_facts [OF fr8]
  have ch: "m_refreshColorLimitH s7 = m_refreshColorLimitH s"
    using refresh_frame_facts(1) [OF fr7] by (simp add: setup_eq_def)
  have g8: "\<not> m_stopDrivingFlag ?s8" "i < nat (m_numberOfSegments ?s8)"
    "m_segmentPinsList ?s8 ! i = ?p"
    "m_currentState ?s8 ! i = SEGMENT_STATE_COLOR"
    "\<forall>k. real_of_int (adc e k (m_segmentPinsList ?s8 ! i)) < m_refreshColorLimitH s7"
    using f7(1) i ff8(1,3,4) ph out ch
    by (simp_all add: world_steps setup_eq_def enableCounterElectrode_eq)
  from color_while_always [OF calm g8(1) ff8(6) [OF wf] ff8(7) [OF dp] g8(2,4,5), of 0 H] M0
  obtain s9 where w9: "refresh_color_while H e (m_refreshColorLimitH s7) True 0 ?s8 = Inr s9"
    by auto
  from color_while_samples [OF calm g8(1) ff8(6) [OF wf] ff8(7) [OF dp] g8(2,4,5), of 0 H] M0 w9
  have c9: "samples ?p s9 = samples ?p ?s8 + nat (MAX_REFRESH_RETRIES H)"
    using g8(3) by auto
  have "refreshDisplay H e s = (Completed, disableCounterElectrode s9)"
    using run rcT w7 w9 by simp
  moreover have "samples ?p (disableCounterElectrode s9)
                   = samples ?p s + nat (MAX_REFRESH_RETRIES H) + 1"
    using c9 c7 c6 dp i by (simp add: samples_steps)
  ultimately show ?thesis by simp
qed

lemma upt_two: "[0..<2] = [0, 1]"
  by code_simp

section \<open>The retry cap of the refresh loops\<close>

text \<open>
  C2, amended. No interrupt comes, the object is well formed with distinct segment pins,
  and \<open>MAX_REFRESH_RETRIES\<close> is not negative. A bleached segment whose every sample is above
  \<open>m_refreshBleachLimitH\<close> and \<open>m_refreshBleachLimitL\<close> (a colored one whose every sample is
  below \<open>m_refreshColorLimitL\<close> and \<open>m_refreshColorLimitH\<close>) never comes back into range.
  For such a segment \<^verbatim>\<open>refreshDisplay\<close> returns, having completed, after exactly
  \<open>MAX_REFRESH_RETRIES + 1\<close> refresh pulses on its pin: the first pulse and
  \<open>MAX_REFRESH_RETRIES\<close> retries. Its pin is read \<open>1 + MAX_REFRESH_RETRIES\<close> times: once to
  classify it and once after each pulse but the last. A pass through the body of a loop with
  \<open>retries\<close> at the cap or beyond it still pulses every flagged segment of the phase, reads
  no pin of the segment, and clears the condition of the loop.
\<close>

theorem refresh_retry_cap:
  assumes calm: "calm e" and nf: "\<not> m_stopDrivingFlag s" and wf: "well_formed s"
    and dp: "distinct_pins s" and i: "i < nat (m_numberOfSegments s)"
    and M0: "0 \<le> MAX_REFRESH_RETRIES H"
  shows "(m_currentState s ! i = SEGMENT_STATE_BLEACH
            \<and> (\<forall>k. m_refreshBleachLimitH s < real_of_int (adc e k (m_segmentPinsList s ! i))
                   \<and> m_refreshBleachLimitL s < real_of_int (adc e k (m_segmentPinsList s ! i)))
          \<longrightarrow> fst (refreshDisplay H e s) = Completed
              \<and> pulses (m_segmentPinsList s ! i) LOW (snd (refreshDisplay H e s))
                  = pulses (m_segmentPinsList s ! i) LOW s + (nat (MAX_REFRESH_RETRIES H) + 1)
              \<and> samples (m_segmentPinsList s ! i) (snd (refreshDisplay H e s))
                  = samples (m_segmentPinsList s ! i) s + (1 + nat (MAX_REFRESH_RETRIES H)))
       \<and> (m_currentState s ! i = SEGMENT_STATE_COLOR
            \<and> (\<forall>k. real_of_int (adc e k (m_segmentPinsList s ! i)) < m_refreshColorLimitL s
                   \<and> real_of_int (adc e k (m_segmentPinsList s ! i)) < m_refreshColorLimitH s)
          \<longrightarrow> fst (refreshDisplay H e s) = Completed
              \<and> pulses (m_segmentPinsList s ! i) HIGH (snd (refreshDisplay H e s))
                  = pulses (m_segmentPinsList s ! i) HIGH s + (nat (MAX_REFRESH_RETRIES H) + 1)
              \<and> samples (m_segmentPinsList s ! i) (snd (refreshDisplay H e s))
                  = samples (m_segmentPinsList s ! i) s + (1 + nat (MAX_REFRESH_RETRIES H)))
       \<and> (\<forall>r. MAX_REFRESH_RETRIES H \<le> r \<longrightarrow>
            (\<exists>s'. refresh_bleach_round H e r s = Inr (False, s')
               \<and> samples (m_segmentPinsList s ! i) s' = samples (m_segmentPinsList s ! i) s
               \<and> pulses (m_segmentPinsList s ! i) LOW s'
                   = pulses (m_segmentPinsList s ! i) LOW s
                     + (if m_currentState s ! i = SEGMENT_STATE_BLEACH
                           \<and> m_refreshSegmentNeeded s ! i then 1 else 0)))
       \<and> (\<forall>r cl. MAX_REFRESH_RETRIES H \<le> r \<longrightarrow>
            (\<exists>s'. refresh_color_round H e cl r s = Inr (False, s')
               \<and> samples (m_segmentPinsList s ! i) s' = samples (m_segmentPinsList s ! i) s
               \<and> pulses (m_segmentPinsList s ! i) HIGH s'
                   = pulses (m_segmentPinsList s ! i) HIGH s
                     + (if m_currentState s ! i = SEGMENT_STATE_COLOR
                           \<and> m_refreshSegmentNeeded s ! i then 1 else 0)))"
proof (intro conjI impI allI)
  assume a: "m_currentState s ! i = SEGMENT_STATE_BLEACH
            \<and> (\<forall>k. m_refreshBleachLimitH s < real_of_int (adc e k (m_segmentPinsList s ! i))
                   \<and> m_refreshBleachLimitL s < real_of_int (adc e k (m_segmentPinsList s ! i)))"
  from refresh_bleach_out [OF calm nf wf dp i M0] a
  obtain s' where r: "refreshDisplay H e s = (Completed, s')"
    and p: "pulses (m_segmentPinsList s ! i) LOW s'
              = pulses (m_segmentPinsList s ! i) LOW s + nat (MAX_REFRESH_RETRIES H) + 1"
    by blast
  from refresh_bleach_out_samples [OF calm nf wf dp i M0] a r
  have c: "samples (m_segmentPinsList s ! i) s'
             = samples (m_segmentPinsList s ! i) s + nat (MAX_REFRESH_RETRIES H) + 1"
    by auto
  show "fst (refreshDisplay H e s) = Completed" using r by simp
  show "pulses (m_segmentPinsList s ! i) LOW (snd (refreshDisplay H e s))
          = pulses (m_segmentPinsList s ! i) LOW s + (nat (MAX_REFRESH_RETRIES H) + 1)"
    using r p by simp
  show "samples (m_segmentPinsList s ! i) (snd (refreshDisplay H e s))
          = samples (m_segmentPinsList s ! i) s + (1 + nat (MAX_REFRESH_RETRIES H))"
    using r c by simp
next
  assume a: "m_currentState s ! i = SEGMENT_STATE_COLOR
            \<and> (\<forall>k. real_of_int (adc e k (m_segmentPinsList s ! i)) < m_refreshColorLimitL s
                   \<and> real_of_int (adc e k (m_segmentPinsList s ! i)) < m_refreshColorLimitH s)"
  from refresh_color_out [OF calm nf wf dp i M0] a
  obtain s' where r: "refreshDisplay H e s = (Completed, s')"
    and p: "pulses (m_segmentPinsList s ! i) HIGH s'
              = pulses (m_segmentPinsList s ! i) HIGH s + nat (MAX_REFRESH_RETRIES H) + 1"
    by blast
  from refresh_color_out_samples [OF calm nf wf dp i M0] a r
  have c: "samples (m_segmentPinsList s ! i) s'
             = samples (m_segmentPinsList s ! i) s + nat (MAX_REFRESH_RETRIES H) + 1"
    by auto
  show "fst (refreshDisplay H e s) = Completed" using r by simp
  show "pulses (m_segmentPinsList s ! i) HIGH (snd (refreshDisplay H e s))
          = pulses (m_segmentPinsList s ! i) HIGH s + (nat (MAX_REFRESH_RETRIES H) + 1)"
    using r p by simp
  show "samples (m_segmentPinsList s ! i) (snd (refreshDisplay H e s))
          = samples (m_segmentPinsList s ! i) s + (1 + nat (MAX_REFRESH_RETRIES H))"
    using r c by simp
next
  fix r assume le: "MAX_REFRESH_RETRIES H \<le> r"
  let ?R = "round_core e SEGMENT_STATE_BLEACH LOW (\<lambda>s a. real_of_int a > m_refreshBleachLimitL s)
              r (MAX_REFRESH_RETRIES H) (refreshBleachPulseTime (m_cfg s)) s"
  have eq: "refresh_bleach_round H e r s = ?R"
    using bleach_round_core [OF calm nf] by simp
  from round_core_segment [OF calm nf wf dp i, of SEGMENT_STATE_BLEACH LOW _ r
      "MAX_REFRESH_RETRIES H" "refreshBleachPulseTime (m_cfg s)" LOW]
  obtain nd' s' where rr: "?R = Inr (nd', s')" and n: "nd' \<longrightarrow> r < MAX_REFRESH_RETRIES H"
    and p: "pulses (m_segmentPinsList s ! i) LOW s'
              = pulses (m_segmentPinsList s ! i) LOW s
                + (if LOW = LOW \<and> m_currentState s ! i = SEGMENT_STATE_BLEACH
                      \<and> m_refreshSegmentNeeded s ! i then 1 else 0)"
    by blast
  have "\<not> nd'" using n le by auto
  moreover have "samples (m_segmentPinsList s ! i) s' = samples (m_segmentPinsList s ! i) s"
    using round_core_samples [OF calm nf wf dp i rr] le by simp
  ultimately show "\<exists>s'. refresh_bleach_round H e r s = Inr (False, s')
               \<and> samples (m_segmentPinsList s ! i) s' = samples (m_segmentPinsList s ! i) s
               \<and> pulses (m_segmentPinsList s ! i) LOW s'
                   = pulses (m_segmentPinsList s ! i) LOW s
                     + (if m_currentState s ! i = SEGMENT_STATE_BLEACH
                           \<and> m_refreshSegmentNeeded s ! i then 1 else 0)"
    using eq rr p by simp
next
  fix r and cl :: real assume le: "MAX_REFRESH_RETRIES H \<le> r"
  let ?R = "round_core e SEGMENT_STATE_COLOR HIGH (\<lambda>s a. real_of_int a < cl)
              r (MAX_REFRESH_RETRIES H) (refreshColorPulseTime (m_cfg s)) s"
  have eq: "refresh_color_round H e cl r s = ?R"
    using color_round_core [OF calm nf] by simp
  from round_core_segment [OF calm nf wf dp i, of SEGMENT_STATE_COLOR HIGH _ r
      "MAX_REFRESH_RETRIES H" "refreshColorPulseTime (m_cfg s)" HIGH]
  obtain nd' s' where rr: "?R = Inr (nd', s')" and n: "nd' \<longrightarrow> r < MAX_REFRESH_RETRIES H"
    and p: "pulses (m_segmentPinsList s ! i) HIGH s'
              = pulses (m_segmentPinsList s ! i) HIGH s
                + (if HIGH = HIGH \<and> m_currentState s ! i = SEGMENT_STATE_COLOR
                      \<and> m_refreshSegmentNeeded s ! i then 1 else 0)"
    by blast
  have "\<not> nd'" using n le by auto
  moreover have "samples (m_segmentPinsList s ! i) s' = samples (m_segmentPinsList s ! i) s"
    using round_core_samples [OF calm nf wf dp i rr] le by simp
  ultimately show "\<exists>s'. refresh_color_round H e cl r s = Inr (False, s')
               \<and> samples (m_segmentPinsList s ! i) s' = samples (m_segmentPinsList s ! i) s
               \<and> pulses (m_segmentPinsList s ! i) HIGH s'
                   = pulses (m_segmentPinsList s ! i) HIGH s
                     + (if m_currentState s ! i = SEGMENT_STATE_COLOR
                           \<and> m_refreshSegmentNeeded s ! i then 1 else 0)"
    using eq rr p by simp
qed

theorem refresh_retry_cap_witness:
  "fst (refreshDisplay demo_header drifted_env demo_driver) = Completed
   \<and> pulses 2 LOW (snd (refreshDisplay demo_header drifted_env demo_driver)) = 3
   \<and> samples 2 (snd (refreshDisplay demo_header drifted_env demo_driver)) = 3"
  using refresh_retry_cap [of drifted_env demo_driver 0 demo_header]
  by (simp add: calm_def drifted_env_def demo_driver_def demo_header_def well_formed_def
        distinct_pins_def segments_def pulses_def samples_def upt_two)

text \<open>
  The claim as it stands gives \<open>MAX_REFRESH_RETRIES\<close> pulses and a sample after the cap. On
  the display of two segments with \<open>MAX_REFRESH_RETRIES = 2\<close> the bleached segment on pin 2
  is driven low three times, and nothing reads pin 2 after the third pulse.
\<close>

theorem refresh_retry_cap_counterexample:
  "MAX_REFRESH_RETRIES demo_header = 2
   \<and> pulses 2 LOW (snd (refreshDisplay demo_header drifted_env demo_driver)) = 3
   \<and> trace (snd (refreshDisplay demo_header drifted_env demo_driver)) =
       [AnalogWrite 14 511, Delay 50, PinMode 2 INPUT, PinMode 3 INPUT,
        PinMode 2 INPUT, AnalogRead 2, PinMode 3 INPUT, AnalogRead 3,
        AnalogWrite 14 204, Delay 50, PinMode 2 OUTPUT, DigitalWrite 2 LOW,
        Delay 100, PinMode 2 INPUT, PinMode 3 INPUT, PinMode 2 INPUT,
        AnalogRead 2, Delay 500, PinMode 2 OUTPUT, DigitalWrite 2 LOW,
        Delay 100, PinMode 2 INPUT, PinMode 3 INPUT, PinMode 2 INPUT,
        AnalogRead 2, Delay 500, PinMode 2 OUTPUT, DigitalWrite 2 LOW,
        Delay 100, PinMode 2 INPUT, PinMode 3 INPUT, Delay 500,
        AnalogWrite 14 613, Delay 50, AnalogWrite 14 0]"
  by code_simp

lemma all_less_two: "(\<forall>x<2::nat. P x) \<longleftrightarrow> P 0 \<and> P 1"
  by (metis One_nat_def less_2_cases_iff)

lemma bleach_while_returns:
  assumes calm: "calm e" and nf: "\<not> m_stopDrivingFlag s"
  shows "\<exists>s'. refresh_bleach_while H e nd r s = Inr s' \<and> \<not> m_stopDrivingFlag s'
           \<and> refresh_frame s s'"
proof -
  have "\<exists>s'. refresh_bleach_while H e nd r s = Inr s' \<and> \<not> m_stopDrivingFlag s'"
  proof (rule retry_loop_inv [of "refresh_bleach_while H e" "refresh_bleach_round H e"
        "\<lambda>s. \<not> m_stopDrivingFlag s" "MAX_REFRESH_RETRIES H", OF refresh_bleach_while.simps])
    fix r :: int and s :: driver assume j: "\<not> m_stopDrivingFlag s"
    from round_core_calm [OF calm j] bleach_round_core [OF calm j, of H r]
    show "\<exists>nd' s'. refresh_bleach_round H e r s = Inr (nd', s') \<and> \<not> m_stopDrivingFlag s'
            \<and> (nd' \<longrightarrow> r < MAX_REFRESH_RETRIES H)"
      by metis
  qed (rule nf)
  then show ?thesis using refresh_bleach_while_frame [of H e nd r s] by blast
qed

lemma color_while_returns:
  assumes calm: "calm e" and nf: "\<not> m_stopDrivingFlag s"
  shows "\<exists>s'. refresh_color_while H e cl nd r s = Inr s' \<and> \<not> m_stopDrivingFlag s'
           \<and> refresh_frame s s'"
proof -
  have "\<exists>s'. refresh_color_while H e cl nd r s = Inr s' \<and> \<not> m_stopDrivingFlag s'"
  proof (rule retry_loop_inv [of "refresh_color_while H e cl" "refresh_color_round H e cl"
        "\<lambda>s. \<not> m_stopDrivingFlag s" "MAX_REFRESH_RETRIES H", OF refresh_color_while.simps])
    fix r :: int and s :: driver assume j: "\<not> m_stopDrivingFlag s"
    from round_core_calm [OF calm j] color_round_core [OF calm j, of H cl r]
    show "\<exists>nd' s'. refresh_color_round H e cl r s = Inr (nd', s') \<and> \<not> m_stopDrivingFlag s'
            \<and> (nd' \<longrightarrow> r < MAX_REFRESH_RETRIES H)"
      by metis
  qed (rule nf)
  then show ?thesis using refresh_color_while_frame [of H e cl nd r s] by blast
qed

lemma refreshDisplay_completes:
  assumes calm: "calm e" and nf: "\<not> m_stopDrivingFlag s" and wf: "well_formed s"
  shows "\<exists>s'. refreshDisplay H e s = (Completed, s') \<and> \<not> m_stopDrivingFlag s'
           \<and> refresh_frame s s'
           \<and> ((\<exists>x<nat (m_numberOfSegments s). classified e s x)
                 \<longrightarrow> (\<exists>s9. s' = disableCounterElectrode s9 \<and> refresh_frame s s9))"
proof -
  from refreshDisplay_track [OF calm nf wf, of H]
  obtain rc rb s6 where f6: "\<not> m_stopDrivingFlag s6" "refresh_frame s s6"
    and rc: "rc = (\<exists>x<nat (m_numberOfSegments s).
                low_color s x (adc e (reads s + x) (m_segmentPinsList s ! x)))"
    and rb: "rb = (\<exists>x<nat (m_numberOfSegments s).
                high_bleach s x (adc e (reads s + x) (m_segmentPinsList s ! x)))"
    and run: "refreshDisplay H e s =
          (if \<not> (rb \<or> rc) then (Completed, s6)
           else
             (case refresh_bleach_while H e rb 0
                     (enableCounterElectrode H (refreshBleachingVoltage (m_cfg s6)) s6) of
                Inl a \<Rightarrow> (Stopped, a)
              | Inr s7 \<Rightarrow>
                  (case refresh_color_while H e (m_refreshColorLimitH s7) rc 0
                          (enableCounterElectrode H
                             (m_supplyVoltage s7 - refreshColoringVoltage (m_cfg s7)) s7) of
                     Inl a \<Rightarrow> (Stopped, a)
                   | Inr s9 \<Rightarrow> (Completed, disableCounterElectrode s9))))"
    by blast
  have cl: "(rb \<or> rc) = (\<exists>x<nat (m_numberOfSegments s). classified e s x)"
    unfolding rb rc classified_def by blast
  show ?thesis
  proof (cases "rb \<or> rc")
    case False
    then show ?thesis using run f6 cl by auto
  next
    case True
    let ?s6 = "enableCounterElectrode H (refreshBleachingVoltage (m_cfg s6)) s6"
    have g6: "\<not> m_stopDrivingFlag ?s6" using f6(1) by (simp add: world_steps)
    from bleach_while_returns [OF calm g6, of H rb 0]
    obtain s7 where w7: "refresh_bleach_while H e rb 0 ?s6 = Inr s7"
      and f7: "\<not> m_stopDrivingFlag s7" "refresh_frame ?s6 s7"
      by blast
    let ?s8 = "enableCounterElectrode H (m_supplyVoltage s7 - refreshColoringVoltage (m_cfg s7)) s7"
    have g8: "\<not> m_stopDrivingFlag ?s8" using f7(1) by (simp add: world_steps)
    from color_while_returns [OF calm g8, of H "m_refreshColorLimitH s7" rc 0]
    obtain s9 where w9: "refresh_color_while H e (m_refreshColorLimitH s7) rc 0 ?s8 = Inr s9"
      and f9: "\<not> m_stopDrivingFlag s9" "refresh_frame ?s8 s9"
      by blast
    have fr9: "refresh_frame s s9"
      using f6(2) refresh_frame_hw(2) [of s6] f7(2) refresh_frame_hw(2) [of s7] f9(2)
      by (blast intro: refresh_frame_trans)
    have fr: "refresh_frame s (disableCounterElectrode s9)"
      using fr9 refresh_frame_hw(3) by (blast intro: refresh_frame_trans)
    have "refreshDisplay H e s = (Completed, disableCounterElectrode s9)"
      using run True w7 w9 by simp
    then show ?thesis using f9(1) fr fr9 by (auto simp: world_steps)
  qed
qed

lemma last_read_events:
  "is \<noteq> [] \<Longrightarrow> last (concat (map (read_events s) is))
                   = AnalogRead (m_segmentPinsList s ! last is)"
  by (cases "is" rule: rev_cases) (simp_all add: read_events_def)

lemma read_events_mid_rail: "read_events (mid_rail H s) = read_events s"
  by (rule ext) (simp add: read_events_def mid_rail_facts)

lemma refreshDisplay_quiet_trace:
  assumes calm: "calm e" and nf: "\<not> m_stopDrivingFlag s"
    and none: "\<forall>x<nat (m_numberOfSegments s). \<not> classified e s x"
  shows "\<exists>s'. refreshDisplay H e s = (Completed, s')
           \<and> trace s' = trace s @
                [AnalogWrite (m_counterElectrodePin s)
                   (c_int (real_of_int (ADC_DAC_MAX_LSB H)
                           * (m_supplyVoltage s / 2 / m_supplyVoltage s))),
                 Delay 50] @ float_events s @ concat (map (read_events s) (segments s))"
proof -
  have nfm: "\<not> m_stopDrivingFlag (mid_rail H s)"
    using nf by (simp add: mid_rail_facts)
  from classify_for_calm [OF calm nfm, of "segments s" False False]
  obtain rc rb s4
    where c: "classify_for e (segments s) False False (mid_rail H s) = Inr (rc, rb, s4)"
      and rcv: "rc = (False \<or> (\<exists>j<length (segments s).
                 low_color (mid_rail H s) (segments s ! j)
                   (adc e (reads (mid_rail H s) + j)
                      (m_segmentPinsList (mid_rail H s) ! (segments s ! j)))))"
      and rbv: "rb = (False \<or> (\<exists>j<length (segments s).
                 high_bleach (mid_rail H s) (segments s ! j)
                   (adc e (reads (mid_rail H s) + j)
                      (m_segmentPinsList (mid_rail H s) ! (segments s ! j)))))"
    by blast
  have no: "\<not> (rb \<or> rc)"
    using none unfolding rcv rbv classified_def
    by (auto simp: mid_rail_facts segments_def)
  from classify_for_trace [OF calm nfm, of "segments s" False False] c
  have tr: "trace s4 = trace (mid_rail H s) @ concat (map (read_events s) (segments s))"
    by (auto simp: read_events_mid_rail)
  from refreshDisplay_calm [OF calm nf, of H] c no
  have "refreshDisplay H e s = (Completed, s4\<lparr>polls := Suc (polls s4)\<rparr>)"
    by auto
  then show ?thesis using tr by (simp add: mid_rail_def)
qed

section \<open>The counter electrode at the end of refreshDisplay\<close>

text \<open>
  C5. \<^verbatim>\<open>refreshDisplay\<close> enables the counter electrode at half the supply voltage before it
  samples. When no interrupt comes, the call completes. If a sample has classified some
  segment, the last primitive called is \<^verbatim>\<open>analogWrite(m_counterElectrodePin, 0)\<close>, the body
  of \<^verbatim>\<open>disableCounterElectrode\<close> at line 413. If no sample has classified a segment, the
  method returns at line 232: everything it has called is the \<^verbatim>\<open>analogWrite\<close> of the
  half-supply value, the delay of 50 ms, and the pin modes and reads of the classification;
  the last call is not the write of zero, so the counter electrode stays driven.
\<close>

theorem refreshDisplay_counter_electrode:
  assumes calm: "calm e" and nf: "\<not> m_stopDrivingFlag s" and wf: "well_formed s"
  shows "fst (refreshDisplay H e s) = Completed
       \<and> ((\<exists>x<nat (m_numberOfSegments s). classified e s x)
            \<longrightarrow> last (trace (snd (refreshDisplay H e s)))
                  = AnalogWrite (m_counterElectrodePin s) 0)
       \<and> ((\<forall>x<nat (m_numberOfSegments s). \<not> classified e s x)
            \<longrightarrow> trace (snd (refreshDisplay H e s)) = trace s @
                   [AnalogWrite (m_counterElectrodePin s)
                      (c_int (real_of_int (ADC_DAC_MAX_LSB H)
                              * (m_supplyVoltage s / 2 / m_supplyVoltage s))),
                    Delay 50] @ float_events s @ concat (map (read_events s) (segments s))
                \<and> last (trace (snd (refreshDisplay H e s)))
                     \<noteq> AnalogWrite (m_counterElectrodePin s) 0)"
proof (intro conjI impI)
  from refreshDisplay_completes [OF calm nf wf, of H]
  obtain s' where r: "refreshDisplay H e s = (Completed, s')"
    and d: "(\<exists>x<nat (m_numberOfSegments s). classified e s x)
              \<longrightarrow> (\<exists>s9. s' = disableCounterElectrode s9 \<and> refresh_frame s s9)"
    by blast
  show "fst (refreshDisplay H e s) = Completed" using r by simp
  {
    assume "\<exists>x<nat (m_numberOfSegments s). classified e s x"
    with d obtain s9 where s9: "s' = disableCounterElectrode s9" "refresh_frame s s9"
      by blast
    have "m_counterElectrodePin s9 = m_counterElectrodePin s"
      using refresh_frame_facts(1) [OF s9(2)] by (simp add: setup_eq_def)
    then show "last (trace (snd (refreshDisplay H e s)))
                 = AnalogWrite (m_counterElectrodePin s) 0"
      using r s9(1) by (simp add: disableCounterElectrode_eq)
  }
  {
    assume none: "\<forall>x<nat (m_numberOfSegments s). \<not> classified e s x"
    from refreshDisplay_quiet_trace [OF calm nf none, of H]
    show t: "trace (snd (refreshDisplay H e s)) = trace s @
                   [AnalogWrite (m_counterElectrodePin s)
                      (c_int (real_of_int (ADC_DAC_MAX_LSB H)
                              * (m_supplyVoltage s / 2 / m_supplyVoltage s))),
                    Delay 50] @ float_events s @ concat (map (read_events s) (segments s))"
      by auto
    show "last (trace (snd (refreshDisplay H e s))) \<noteq> AnalogWrite (m_counterElectrodePin s) 0"
    proof (cases "segments s = []")
      case True
      then show ?thesis unfolding t by (simp add: float_events_def)
    next
      case False
      then have "concat (map (read_events s) (segments s)) \<noteq> []"
        by (cases "segments s") (simp_all add: read_events_def)
      then show ?thesis
        unfolding t using last_read_events [OF False, of s] by simp
    qed
  }
qed

lemma c_int_half: "c_int (1023 / 2) = 511"
  by code_simp

theorem refreshDisplay_counter_electrode_witness:
  "fst (refreshDisplay demo_header still_env demo_driver) = Completed
   \<and> trace (snd (refreshDisplay demo_header still_env demo_driver)) =
       [AnalogWrite 14 511, Delay 50, PinMode 2 INPUT, PinMode 3 INPUT,
        PinMode 2 INPUT, AnalogRead 2, PinMode 3 INPUT, AnalogRead 3]
   \<and> last (trace (snd (refreshDisplay demo_header still_env demo_driver))) \<noteq> AnalogWrite 14 0"
  using refreshDisplay_counter_electrode [of still_env demo_driver demo_header]
  by (simp add: calm_def still_env_def demo_driver_def demo_header_def well_formed_def
        segments_def upt_two classified_def low_color_def high_bleach_def
        float_events_def read_events_def c_int_half all_less_two)

lemma recheck_for_other:
  assumes "calm e" and "\<not> m_stopDrivingFlag s"
    and "i < length (m_refreshSegmentNeeded s)" and "m_currentState s ! i \<noteq> phase"
    and "recheck_for e phase beyond retries maxr is nd s = Inr (nd', s')"
  shows "m_refreshSegmentNeeded s' ! i = m_refreshSegmentNeeded s ! i"
  using assms
proof (induction "is" arbitrary: nd s)
  case Nil
  then show ?case by simp
next
  case (Cons j "is")
  let ?a = "s\<lparr>polls := Suc (polls s)\<rparr>"
  let ?b = "s\<lparr>polls := Suc (polls s),
               trace := trace s @ [PinMode (m_segmentPinsList s ! j) INPUT,
                                   AnalogRead (m_segmentPinsList s ! j)],
               reads := Suc (reads s)\<rparr>"
  let ?c = "s\<lparr>polls := Suc (polls s),
               trace := trace s @ [PinMode (m_segmentPinsList s ! j) INPUT,
                                   AnalogRead (m_segmentPinsList s ! j)],
               reads := Suc (reads s),
               m_refreshSegmentNeeded := (m_refreshSegmentNeeded s)[j := True]\<rparr>"
  note run = Cons.prems(5) [unfolded recheck_for_step [OF Cons.prems(1,2)]]
  have ih: "m_refreshSegmentNeeded s' ! i = m_refreshSegmentNeeded s ! i"
    if "recheck_for e phase beyond retries maxr is nd1 s1 = Inr (nd', s')"
      and "s1 = ?a \<or> s1 = ?b \<or> (s1 = ?c \<and> j \<noteq> i)" for nd1 s1
  proof -
    have "\<not> m_stopDrivingFlag s1" "i < length (m_refreshSegmentNeeded s1)"
      "m_currentState s1 ! i \<noteq> phase"
      "m_refreshSegmentNeeded s1 ! i = m_refreshSegmentNeeded s ! i"
      using that(2) Cons.prems(2,3,4) by auto
    then show ?thesis
      using Cons.IH [OF Cons.prems(1) _ _ _ that(1)] by simp
  qed
  let ?v = "adc e (reads s) (m_segmentPinsList s ! j)"
  consider (skip) "\<not> (m_currentState s ! j = phase \<and> retries < maxr)"
    | (mark) "m_currentState s ! j = phase \<and> retries < maxr" "beyond ?b ?v"
    | (pass) "m_currentState s ! j = phase \<and> retries < maxr" "\<not> beyond ?b ?v"
    by blast
  then show ?case
  proof cases
    case skip
    with run have "recheck_for e phase beyond retries maxr is nd ?a = Inr (nd', s')"
      by simp
    then show ?thesis using ih by blast
  next
    case mark
    with run have "recheck_for e phase beyond retries maxr is True ?c = Inr (nd', s')"
      by simp
    moreover have "j \<noteq> i" using mark(1) Cons.prems(4) by blast
    ultimately show ?thesis using ih by blast
  next
    case pass
    with run have "recheck_for e phase beyond retries maxr is nd ?b = Inr (nd', s')"
      by simp
    then show ?thesis using ih by blast
  qed
qed

lemma round_core_other:
  assumes "calm e" and "\<not> m_stopDrivingFlag s"
    and "i < length (m_refreshSegmentNeeded s)" and "m_currentState s ! i \<noteq> phase"
    and "round_core e phase lv beyond retries maxr ms s = Inr (nd', s')"
  shows "m_refreshSegmentNeeded s' ! i = m_refreshSegmentNeeded s ! i"
proof -
  let ?s1 = "after_pulses phase lv ms s"
  from assms(5) obtain s5
    where r: "recheck_for e phase beyond retries maxr (segments s) False ?s1 = Inr (nd', s5)"
      and s': "s' = delay 500 s5"
    by (auto simp: round_core_def split: sum.splits)
  from recheck_for_other [OF assms(1) _ _ _ r]
  have "m_refreshSegmentNeeded s5 ! i = m_refreshSegmentNeeded s ! i"
    using assms(2,3,4) by (simp add: after_pulses_facts)
  then show ?thesis
    by (simp add: s' delay_def)
qed

lemma loop_other:
  fixes W :: "bool \<Rightarrow> int \<Rightarrow> driver \<Rightarrow> driver + driver"
    and R :: "int \<Rightarrow> driver \<Rightarrow> driver + bool \<times> driver"
  assumes unfold: "\<And>nd r s. W nd r s =
            (if \<not> nd then Inr s
             else (case R r s of Inl a \<Rightarrow> Inl a | Inr (nd', s1) \<Rightarrow> W nd' (r + 1) s1))"
    and rc: "\<And>r s. \<not> m_stopDrivingFlag s \<Longrightarrow> R r s = round_core e phase lv beyond r M (ms s) s"
    and calm: "calm e" and nf: "\<not> m_stopDrivingFlag s0"
    and wf: "well_formed s0" and dp: "distinct_pins s0" and i: "i < nat (m_numberOfSegments s0)"
    and ph: "m_currentState s0 ! i \<noteq> phase"
  shows "\<exists>s'. W nd r s0 = Inr s' \<and> \<not> m_stopDrivingFlag s' \<and> refresh_frame s0 s'
           \<and> (\<forall>l. pulses (m_segmentPinsList s0 ! i) l s' = pulses (m_segmentPinsList s0 ! i) l s0)
           \<and> m_refreshSegmentNeeded s' ! i = m_refreshSegmentNeeded s0 ! i"
proof -
  define J where "J s \<longleftrightarrow> \<not> m_stopDrivingFlag s \<and> refresh_frame s0 s
      \<and> (\<forall>l. pulses (m_segmentPinsList s0 ! i) l s = pulses (m_segmentPinsList s0 ! i) l s0)
      \<and> m_refreshSegmentNeeded s ! i = m_refreshSegmentNeeded s0 ! i" for s :: driver
  have round: "\<exists>nd' s'. R r s = Inr (nd', s') \<and> J s' \<and> (nd' \<longrightarrow> r < M)" if "J s" for r s
  proof -
    from that have nfs: "\<not> m_stopDrivingFlag s" and fr: "refresh_frame s0 s"
      and cs: "\<forall>l. pulses (m_segmentPinsList s0 ! i) l s = pulses (m_segmentPinsList s0 ! i) l s0"
      and ns: "m_refreshSegmentNeeded s ! i = m_refreshSegmentNeeded s0 ! i"
      by (simp_all add: J_def)
    note ff = refresh_frame_facts [OF fr]
    have ii: "i < nat (m_numberOfSegments s)"
      using i ff(1) by (simp add: setup_eq_def)
    have phs: "m_currentState s ! i \<noteq> phase" using ph ff(4) by simp
    from round_core_segment [OF calm nfs ff(6) [OF wf] ff(7) [OF dp] ii,
        of phase lv beyond r M "ms s" LOW]
    obtain nd' s' where rr: "round_core e phase lv beyond r M (ms s) s = Inr (nd', s')"
      and f': "\<not> m_stopDrivingFlag s'" "refresh_frame s s'" "nd' \<longrightarrow> r < M"
      by blast
    have p: "pulses (m_segmentPinsList s ! i) l s' = pulses (m_segmentPinsList s ! i) l s" for l
      using round_core_segment [OF calm nfs ff(6) [OF wf] ff(7) [OF dp] ii,
        of phase lv beyond r M "ms s" l] rr phs
      by auto
    have n: "m_refreshSegmentNeeded s' ! i = m_refreshSegmentNeeded s ! i"
      using round_core_other [OF calm nfs _ phs rr]
        well_formed_index(2) [OF ff(6) [OF wf] ii] by simp
    show ?thesis
      using rc [OF nfs, of r] rr f' p n cs ns ff(3) fr
      by (auto simp: J_def intro: refresh_frame_trans)
  qed
  have "J s0"
    using nf by (simp add: J_def refresh_frame_refl)
  from retry_loop_inv [of W R J M, OF unfold round this]
  show ?thesis
    by (simp add: J_def)
qed

lemma bleach_while_other:
  assumes calm: "calm e" and nf: "\<not> m_stopDrivingFlag s0"
    and wf: "well_formed s0" and dp: "distinct_pins s0" and i: "i < nat (m_numberOfSegments s0)"
    and ph: "m_currentState s0 ! i \<noteq> SEGMENT_STATE_BLEACH"
  shows "\<exists>s'. refresh_bleach_while H e nd r s0 = Inr s' \<and> \<not> m_stopDrivingFlag s'
           \<and> refresh_frame s0 s'
           \<and> (\<forall>l. pulses (m_segmentPinsList s0 ! i) l s' = pulses (m_segmentPinsList s0 ! i) l s0)
           \<and> m_refreshSegmentNeeded s' ! i = m_refreshSegmentNeeded s0 ! i"
  by (rule loop_other [of "refresh_bleach_while H e" "refresh_bleach_round H e" e
        SEGMENT_STATE_BLEACH LOW "\<lambda>s a. real_of_int a > m_refreshBleachLimitL s"
        "MAX_REFRESH_RETRIES H" "\<lambda>s. refreshBleachPulseTime (m_cfg s)",
        OF refresh_bleach_while.simps bleach_round_core [OF calm] calm nf wf dp i ph])

lemma color_while_other:
  assumes calm: "calm e" and nf: "\<not> m_stopDrivingFlag s0"
    and wf: "well_formed s0" and dp: "distinct_pins s0" and i: "i < nat (m_numberOfSegments s0)"
    and ph: "m_currentState s0 ! i \<noteq> SEGMENT_STATE_COLOR"
  shows "\<exists>s'. refresh_color_while H e cl nd r s0 = Inr s' \<and> \<not> m_stopDrivingFlag s'
           \<and> refresh_frame s0 s'
           \<and> (\<forall>l. pulses (m_segmentPinsList s0 ! i) l s' = pulses (m_segmentPinsList s0 ! i) l s0)
           \<and> m_refreshSegmentNeeded s' ! i = m_refreshSegmentNeeded s0 ! i"
  by (rule loop_other [of "refresh_color_while H e cl" "refresh_color_round H e cl" e
        SEGMENT_STATE_COLOR HIGH "\<lambda>s a. real_of_int a < cl"
        "MAX_REFRESH_RETRIES H" "\<lambda>s. refreshColorPulseTime (m_cfg s)",
        OF refresh_color_while.simps color_round_core [OF calm] calm nf wf dp i ph])

lemma refreshDisplay_stages:
  assumes calm: "calm e" and nf: "\<not> m_stopDrivingFlag s" and wf: "well_formed s"
  shows "\<exists>s6 s7 s9.
      \<not> m_stopDrivingFlag s6 \<and> refresh_frame s s6
      \<and> (\<forall>p l. pulses p l s6 = pulses p l s)
      \<and> (\<forall>x<nat (m_numberOfSegments s).
            m_refreshSegmentNeeded s6 ! x = (m_refreshSegmentNeeded s ! x \<or> classified e s x))
      \<and> (distinct_pins s \<longrightarrow> (\<forall>x<nat (m_numberOfSegments s).
            samples (m_segmentPinsList s ! x) s6 = samples (m_segmentPinsList s ! x) s + 1))
      \<and> ((\<forall>x<nat (m_numberOfSegments s). \<not> classified e s x)
            \<longrightarrow> refreshDisplay H e s = (Completed, s6))
      \<and> ((\<exists>x<nat (m_numberOfSegments s). classified e s x) \<longrightarrow>
            refresh_bleach_while H e
                (\<exists>x<nat (m_numberOfSegments s).
                    high_bleach s x (adc e (reads s + x) (m_segmentPinsList s ! x))) 0
                (enableCounterElectrode H (refreshBleachingVoltage (m_cfg s)) s6) = Inr s7
            \<and> \<not> m_stopDrivingFlag s7
            \<and> refresh_frame (enableCounterElectrode H (refreshBleachingVoltage (m_cfg s)) s6) s7
            \<and> refresh_color_while H e (m_refreshColorLimitH s)
                (\<exists>x<nat (m_numberOfSegments s).
                    low_color s x (adc e (reads s + x) (m_segmentPinsList s ! x))) 0
                (enableCounterElectrode H
                   (m_supplyVoltage s - refreshColoringVoltage (m_cfg s)) s7) = Inr s9
            \<and> \<not> m_stopDrivingFlag s9
            \<and> refresh_frame (enableCounterElectrode H
                   (m_supplyVoltage s - refreshColoringVoltage (m_cfg s)) s7) s9
            \<and> refreshDisplay H e s = (Completed, disableCounterElectrode s9))"
proof -
  from refreshDisplay_track [OF calm nf wf, of H]
  obtain rc rb s6 where f6: "\<not> m_stopDrivingFlag s6" "refresh_frame s s6"
    and p6: "\<forall>p l. pulses p l s6 = pulses p l s"
    and rc: "rc = (\<exists>x<nat (m_numberOfSegments s).
                low_color s x (adc e (reads s + x) (m_segmentPinsList s ! x)))"
    and rb: "rb = (\<exists>x<nat (m_numberOfSegments s).
                high_bleach s x (adc e (reads s + x) (m_segmentPinsList s ! x)))"
    and n6: "\<forall>x<nat (m_numberOfSegments s).
            m_refreshSegmentNeeded s6 ! x = (m_refreshSegmentNeeded s ! x \<or> classified e s x)"
    and m6: "distinct_pins s \<longrightarrow> (\<forall>x<nat (m_numberOfSegments s).
            samples (m_segmentPinsList s ! x) s6 = samples (m_segmentPinsList s ! x) s + 1)"
    and run: "refreshDisplay H e s =
          (if \<not> (rb \<or> rc) then (Completed, s6)
           else
             (case refresh_bleach_while H e rb 0
                     (enableCounterElectrode H (refreshBleachingVoltage (m_cfg s6)) s6) of
                Inl a \<Rightarrow> (Stopped, a)
              | Inr s7 \<Rightarrow>
                  (case refresh_color_while H e (m_refreshColorLimitH s7) rc 0
                          (enableCounterElectrode H
                             (m_supplyVoltage s7 - refreshColoringVoltage (m_cfg s7)) s7) of
                     Inl a \<Rightarrow> (Stopped, a)
                   | Inr s9 \<Rightarrow> (Completed, disableCounterElectrode s9))))"
    by blast
  have cl: "(rb \<or> rc) = (\<exists>x<nat (m_numberOfSegments s). classified e s x)"
    unfolding rb rc classified_def by blast
  have c6: "m_cfg s6 = m_cfg s"
    using refresh_frame_facts(1) [OF f6(2)] by (simp add: setup_eq_def)
  let ?s6 = "enableCounterElectrode H (refreshBleachingVoltage (m_cfg s)) s6"
  have g6: "\<not> m_stopDrivingFlag ?s6" using f6(1) by (simp add: world_steps)
  from bleach_while_returns [OF calm g6, of H rb 0]
  obtain s7 where w7: "refresh_bleach_while H e rb 0 ?s6 = Inr s7"
    and f7: "\<not> m_stopDrivingFlag s7" "refresh_frame ?s6 s7"
    by blast
  have fr7: "refresh_frame s s7"
    using f6(2) refresh_frame_hw(2) [of s6] f7(2) by (blast intro: refresh_frame_trans)
  have c7: "m_cfg s7 = m_cfg s" "m_supplyVoltage s7 = m_supplyVoltage s"
    "m_refreshColorLimitH s7 = m_refreshColorLimitH s"
    using refresh_frame_facts(1) [OF fr7] by (simp_all add: setup_eq_def)
  let ?s8 = "enableCounterElectrode H (m_supplyVoltage s - refreshColoringVoltage (m_cfg s)) s7"
  have g8: "\<not> m_stopDrivingFlag ?s8" using f7(1) by (simp add: world_steps)
  from color_while_returns [OF calm g8, of H "m_refreshColorLimitH s" rc 0]
  obtain s9 where w9: "refresh_color_while H e (m_refreshColorLimitH s) rc 0 ?s8 = Inr s9"
    and f9: "\<not> m_stopDrivingFlag s9" "refresh_frame ?s8 s9"
    by blast
  have r1: "(\<forall>x<nat (m_numberOfSegments s). \<not> classified e s x)
            \<longrightarrow> refreshDisplay H e s = (Completed, s6)"
    using run cl by auto
  have r2: "(\<exists>x<nat (m_numberOfSegments s). classified e s x)
            \<longrightarrow> refreshDisplay H e s = (Completed, disableCounterElectrode s9)"
    using run cl w7 w9 c6 c7 by auto
  show ?thesis
    using f6 p6 n6 m6 r1 r2 w7 [unfolded rb] f7 w9 [unfolded rc] f9 by blast
qed


lemma refresh_color_in_range:
  assumes calm: "calm e" and nf: "\<not> m_stopDrivingFlag s" and wf: "well_formed s"
    and dp: "distinct_pins s" and i: "i < nat (m_numberOfSegments s)"
    and ph: "m_currentState s ! i = SEGMENT_STATE_COLOR"
    and clear: "\<not> m_refreshSegmentNeeded s ! i"
    and inr: "\<forall>k. m_refreshColorLimitL s \<le> real_of_int (adc e k (m_segmentPinsList s ! i))
                \<and> m_refreshColorLimitH s \<le> real_of_int (adc e k (m_segmentPinsList s ! i))"
  shows "\<exists>s'. refreshDisplay H e s = (Completed, s')
           \<and> (\<forall>l. pulses (m_segmentPinsList s ! i) l s' = pulses (m_segmentPinsList s ! i) l s)
           \<and> \<not> m_refreshSegmentNeeded s' ! i"
proof -
  let ?p = "m_segmentPinsList s ! i"
  let ?rb = "\<exists>x<nat (m_numberOfSegments s).
                high_bleach s x (adc e (reads s + x) (m_segmentPinsList s ! x))"
  let ?rc = "\<exists>x<nat (m_numberOfSegments s).
                low_color s x (adc e (reads s + x) (m_segmentPinsList s ! x))"
  from refreshDisplay_stages [OF calm nf wf, of H]
  obtain s6 s7 s9 where f6: "\<not> m_stopDrivingFlag s6" "refresh_frame s s6"
    and p6: "\<forall>p l. pulses p l s6 = pulses p l s"
    and n6: "\<forall>x<nat (m_numberOfSegments s).
            m_refreshSegmentNeeded s6 ! x = (m_refreshSegmentNeeded s ! x \<or> classified e s x)"
    and r1: "(\<forall>x<nat (m_numberOfSegments s). \<not> classified e s x)
            \<longrightarrow> refreshDisplay H e s = (Completed, s6)"
    and r2: "(\<exists>x<nat (m_numberOfSegments s). classified e s x) \<longrightarrow>
            refresh_bleach_while H e ?rb 0
                (enableCounterElectrode H (refreshBleachingVoltage (m_cfg s)) s6) = Inr s7
            \<and> \<not> m_stopDrivingFlag s7
            \<and> refresh_frame (enableCounterElectrode H (refreshBleachingVoltage (m_cfg s)) s6) s7
            \<and> refresh_color_while H e (m_refreshColorLimitH s) ?rc 0
                (enableCounterElectrode H
                   (m_supplyVoltage s - refreshColoringVoltage (m_cfg s)) s7) = Inr s9
            \<and> \<not> m_stopDrivingFlag s9
            \<and> refresh_frame (enableCounterElectrode H
                   (m_supplyVoltage s - refreshColoringVoltage (m_cfg s)) s7) s9
            \<and> refreshDisplay H e s = (Completed, disableCounterElectrode s9)"
    by blast
  have nc: "\<not> classified e s i"
    using ph inr by (auto simp: classified_def low_color_def high_bleach_def not_less)
  have c6: "\<not> m_refreshSegmentNeeded s6 ! i"
    using n6 i clear nc by simp
  show ?thesis
  proof (cases "\<exists>x<nat (m_numberOfSegments s). classified e s x")
    case False
    then show ?thesis using r1 p6 c6 by auto
  next
    case True
    let ?s6 = "enableCounterElectrode H (refreshBleachingVoltage (m_cfg s)) s6"
    let ?s8 = "enableCounterElectrode H (m_supplyVoltage s - refreshColoringVoltage (m_cfg s)) s7"
    from r2 True have w7: "refresh_bleach_while H e ?rb 0 ?s6 = Inr s7"
      and f7: "\<not> m_stopDrivingFlag s7" "refresh_frame ?s6 s7"
      and w9: "refresh_color_while H e (m_refreshColorLimitH s) ?rc 0 ?s8 = Inr s9"
      and f9: "\<not> m_stopDrivingFlag s9" "refresh_frame ?s8 s9"
      and r: "refreshDisplay H e s = (Completed, disableCounterElectrode s9)"
      by blast+
    have fr6: "refresh_frame s ?s6"
      using f6(2) refresh_frame_hw(2) by (blast intro: refresh_frame_trans)
    note ff6 = refresh_frame_facts [OF fr6]
    have g6: "\<not> m_stopDrivingFlag ?s6" "i < nat (m_numberOfSegments ?s6)"
      "m_segmentPinsList ?s6 ! i = ?p" "m_currentState ?s6 ! i \<noteq> SEGMENT_STATE_BLEACH"
      "\<not> m_refreshSegmentNeeded ?s6 ! i"
      using f6(1) i ff6(1,3,4) ph c6
      by (simp_all add: world_steps setup_eq_def enableCounterElectrode_eq)
    have q6: "\<forall>l. pulses ?p l ?s6 = pulses ?p l s"
      using p6 by (simp add: world_steps)
    from bleach_while_other [OF calm g6(1) ff6(6) [OF wf] ff6(7) [OF dp] g6(2,4), of H ?rb 0] w7
    have h7: "\<forall>l. pulses ?p l s7 = pulses ?p l s" "\<not> m_refreshSegmentNeeded s7 ! i"
      using g6(3,5) q6 by auto
    have fr8: "refresh_frame s ?s8"
      using fr6 f7(2) refresh_frame_hw(2) by (blast intro: refresh_frame_trans)
    note ff8 = refresh_frame_facts [OF fr8]
    have g8: "\<not> m_stopDrivingFlag ?s8" "i < nat (m_numberOfSegments ?s8)"
      "m_segmentPinsList ?s8 ! i = ?p"
      "\<not> m_refreshSegmentNeeded ?s8 ! i"
      using f7(1) i ff8(1,3) h7(2)
      by (simp_all add: world_steps setup_eq_def enableCounterElectrode_eq)
    have q8: "\<forall>l. pulses ?p l ?s8 = pulses ?p l s"
      using h7(1) by (simp add: world_steps)
    have off: "l = HIGH \<and> m_currentState ?s8 ! i = SEGMENT_STATE_COLOR \<longrightarrow>
                \<not> m_refreshSegmentNeeded ?s8 ! i
                \<and> (\<forall>k. m_refreshColorLimitH s
                           \<le> real_of_int (adc e k (m_segmentPinsList ?s8 ! i)))" for l
      using g8(3,4) inr by simp
    have h9: "pulses ?p l s9 = pulses ?p l s \<and> \<not> m_refreshSegmentNeeded s9 ! i" for l
    proof -
      from color_while_still [where l = HIGH and H = H and nd = ?rc and r = 0,
          OF calm g8(1) ff8(6) [OF wf] ff8(7) [OF dp] g8(2) off] w9
      have a: "\<not> m_refreshSegmentNeeded s9 ! i"
        using ff8(4) ph by auto
      from color_while_still [where l = l and H = H and nd = ?rc and r = 0,
          OF calm g8(1) ff8(6) [OF wf] ff8(7) [OF dp] g8(2) off] w9
      have "pulses ?p l s9 = pulses ?p l s"
        using g8(3) q8 by auto
      with a show ?thesis by simp
    qed
    show ?thesis
      using r h9 by (simp add: world_steps) (simp add: disableCounterElectrode_eq)
  qed
qed


lemma classify_for_exact:
  assumes calm: "calm e" and nf: "\<not> m_stopDrivingFlag s" and wf: "well_formed s"
  shows "\<exists>rc rb s'. classify_for e (segments s) False False s = Inr (rc, rb, s')
           \<and> (\<forall>x<nat (m_numberOfSegments s).
                 m_refreshSegmentNeeded s' ! x = (m_refreshSegmentNeeded s ! x \<or> classified e s x))
           \<and> rc = (\<exists>x<nat (m_numberOfSegments s).
                     low_color s x (adc e (reads s + x) (m_segmentPinsList s ! x)))
           \<and> rb = (\<exists>x<nat (m_numberOfSegments s).
                     high_bleach s x (adc e (reads s + x) (m_segmentPinsList s ! x)))"
proof -
  let ?n = "nat (m_numberOfSegments s)"
  from classify_for_calm [OF calm nf, of "segments s" False False]
  obtain rc rb s4 where c: "classify_for e (segments s) False False s = Inr (rc, rb, s4)"
    and rc: "rc = (False \<or> (\<exists>j<length (segments s). low_color s (segments s ! j)
                      (adc e (reads s + j) (m_segmentPinsList s ! (segments s ! j)))))"
    and rb: "rb = (False \<or> (\<exists>j<length (segments s). high_bleach s (segments s ! j)
                      (adc e (reads s + j) (m_segmentPinsList s ! (segments s ! j)))))"
    and nd: "\<forall>x<length (m_refreshSegmentNeeded s).
                 m_refreshSegmentNeeded s4 ! x
                   = (m_refreshSegmentNeeded s ! x
                      \<or> (\<exists>j<length (segments s). segments s ! j = x
                           \<and> (low_color s x (adc e (reads s + j) (m_segmentPinsList s ! x))
                              \<or> high_bleach s x (adc e (reads s + j) (m_segmentPinsList s ! x)))))"
    by blast
  have seg: "length (segments s) = ?n" "\<And>j. j < ?n \<Longrightarrow> segments s ! j = j"
    by (simp_all add: segments_def)
  have rc': "rc = (\<exists>x<?n. low_color s x (adc e (reads s + x) (m_segmentPinsList s ! x)))"
    unfolding rc seg(1) using seg(2) by auto
  have rb': "rb = (\<exists>x<?n. high_bleach s x (adc e (reads s + x) (m_segmentPinsList s ! x)))"
    unfolding rb seg(1) using seg(2) by auto
  have nd': "m_refreshSegmentNeeded s4 ! x = (m_refreshSegmentNeeded s ! x \<or> classified e s x)"
    if "x < ?n" for x
  proof -
    have "x < length (m_refreshSegmentNeeded s)"
      using that wf by (simp add: well_formed_def)
    with nd have "m_refreshSegmentNeeded s4 ! x
                   = (m_refreshSegmentNeeded s ! x
                      \<or> (\<exists>j<length (segments s). segments s ! j = x
                           \<and> (low_color s x (adc e (reads s + j) (m_segmentPinsList s ! x))
                              \<or> high_bleach s x (adc e (reads s + j) (m_segmentPinsList s ! x)))))"
      by blast
    also have "(\<exists>j<length (segments s). segments s ! j = x
                           \<and> (low_color s x (adc e (reads s + j) (m_segmentPinsList s ! x))
                              \<or> high_bleach s x (adc e (reads s + j) (m_segmentPinsList s ! x))))
               = classified e s x"
      unfolding seg(1) classified_def using seg(2) that by auto
    finally show ?thesis .
  qed
  show ?thesis using c rc' rb' nd' by blast
qed

lemma refreshDisplay_flags:
  assumes calm: "calm e" and nf: "\<not> m_stopDrivingFlag s" and wf: "well_formed s"
  shows "\<exists>s'. refreshDisplay H e s = (Completed, s')
           \<and> (\<forall>x<nat (m_numberOfSegments s). classified e s x \<longrightarrow> m_refreshSegmentNeeded s' ! x)
           \<and> ((\<forall>x<nat (m_numberOfSegments s). \<not> classified e s x)
                \<longrightarrow> (\<forall>x<nat (m_numberOfSegments s).
                        m_refreshSegmentNeeded s' ! x = m_refreshSegmentNeeded s ! x)
                    \<and> (\<forall>p l. pulses p l s' = pulses p l s))"
proof -
  from refreshDisplay_stages [OF calm nf wf, of H]
  obtain s6 s7 s9 where f6: "\<not> m_stopDrivingFlag s6" "refresh_frame s s6"
    and p6: "\<forall>p l. pulses p l s6 = pulses p l s"
    and n6: "\<forall>x<nat (m_numberOfSegments s).
            m_refreshSegmentNeeded s6 ! x = (m_refreshSegmentNeeded s ! x \<or> classified e s x)"
    and r1: "(\<forall>x<nat (m_numberOfSegments s). \<not> classified e s x)
            \<longrightarrow> refreshDisplay H e s = (Completed, s6)"
    and r2: "(\<exists>x<nat (m_numberOfSegments s). classified e s x) \<longrightarrow>
            refresh_frame (enableCounterElectrode H (refreshBleachingVoltage (m_cfg s)) s6) s7
            \<and> refresh_frame (enableCounterElectrode H
                   (m_supplyVoltage s - refreshColoringVoltage (m_cfg s)) s7) s9
            \<and> refreshDisplay H e s = (Completed, disableCounterElectrode s9)"
    by blast
  show ?thesis
  proof (cases "\<exists>x<nat (m_numberOfSegments s). classified e s x")
    case False
    then show ?thesis using r1 p6 n6 by auto
  next
    case True
    with r2 have fr: "refresh_frame s6 (disableCounterElectrode s9)"
      and r: "refreshDisplay H e s = (Completed, disableCounterElectrode s9)"
      using refresh_frame_hw(2) [of s6] refresh_frame_hw(2) [of s7] refresh_frame_hw(3) [of s9]
      by (blast intro: refresh_frame_trans)+
    have "m_refreshSegmentNeeded (disableCounterElectrode s9) ! x"
      if "x < nat (m_numberOfSegments s)" "classified e s x" for x
    proof -
      have "m_refreshSegmentNeeded s6 ! x" using n6 that by simp
      moreover have "x < length (m_refreshSegmentNeeded s6)"
        using that(1) wf refresh_frame_facts(5) [OF f6(2)] by (simp add: well_formed_def)
      ultimately show ?thesis using refresh_frame_facts(8) [OF fr] by blast
    qed
    then show ?thesis using r True by auto
  qed
qed

section \<open>Classification\<close>

text \<open>
  C4, amended. \<open>classified e s x\<close> says that segment \<open>x\<close> is in the state
  \<^verbatim>\<open>SEGMENT_STATE_COLOR\<close> with its classification sample below \<open>m_refreshColorLimitL\<close>, or
  in the state \<^verbatim>\<open>SEGMENT_STATE_BLEACH\<close> with that sample above \<open>m_refreshBleachLimitH\<close>; the
  code reads the state in \<open>m_currentState\<close>. When no interrupt comes and the object is well
  formed, the classification loop (lines 199 to 223) sets the flag of exactly the classified
  segments and leaves every other flag as it was, and its two results say whether some
  colored, some bleached segment was classified. \<^verbatim>\<open>refreshDisplay\<close> completes with the flag
  of every classified segment set; if no segment is classified it changes no flag and
  pulses no pin. A colored segment receives no refresh pulse, and is not flagged on return,
  when its flag was clear on entry and every sample of its pin is at least
  \<open>m_refreshColorLimitL\<close> and at least \<open>m_refreshColorLimitH\<close> (the pins being distinct). A
  sample above \<open>m_refreshColorLimitL\<close> alone is not enough.
\<close>

theorem refresh_classification:
  assumes calm: "calm e" and nf: "\<not> m_stopDrivingFlag s" and wf: "well_formed s"
  shows "(\<exists>rc rb s'. classify_for e (segments s) False False s = Inr (rc, rb, s')
            \<and> (\<forall>x<nat (m_numberOfSegments s).
                  m_refreshSegmentNeeded s' ! x
                    = (m_refreshSegmentNeeded s ! x \<or> classified e s x))
            \<and> rc = (\<exists>x<nat (m_numberOfSegments s).
                      low_color s x (adc e (reads s + x) (m_segmentPinsList s ! x)))
            \<and> rb = (\<exists>x<nat (m_numberOfSegments s).
                      high_bleach s x (adc e (reads s + x) (m_segmentPinsList s ! x))))
       \<and> fst (refreshDisplay H e s) = Completed
       \<and> (\<forall>x<nat (m_numberOfSegments s).
             classified e s x \<longrightarrow> m_refreshSegmentNeeded (snd (refreshDisplay H e s)) ! x)
       \<and> ((\<forall>x<nat (m_numberOfSegments s). \<not> classified e s x)
             \<longrightarrow> (\<forall>x<nat (m_numberOfSegments s).
                     m_refreshSegmentNeeded (snd (refreshDisplay H e s)) ! x
                       = m_refreshSegmentNeeded s ! x)
                 \<and> (\<forall>p l. pulses p l (snd (refreshDisplay H e s)) = pulses p l s))
       \<and> (distinct_pins s \<and> i < nat (m_numberOfSegments s)
            \<and> m_currentState s ! i = SEGMENT_STATE_COLOR
            \<and> \<not> m_refreshSegmentNeeded s ! i
            \<and> (\<forall>k. m_refreshColorLimitL s \<le> real_of_int (adc e k (m_segmentPinsList s ! i))
                   \<and> m_refreshColorLimitH s \<le> real_of_int (adc e k (m_segmentPinsList s ! i)))
             \<longrightarrow> (\<forall>l. pulses (m_segmentPinsList s ! i) l (snd (refreshDisplay H e s))
                          = pulses (m_segmentPinsList s ! i) l s)
                 \<and> \<not> m_refreshSegmentNeeded (snd (refreshDisplay H e s)) ! i)"
proof -
  from refreshDisplay_flags [OF calm nf wf, of H]
  obtain s' where r: "refreshDisplay H e s = (Completed, s')"
    and a: "\<forall>x<nat (m_numberOfSegments s). classified e s x \<longrightarrow> m_refreshSegmentNeeded s' ! x"
    and b: "(\<forall>x<nat (m_numberOfSegments s). \<not> classified e s x)
                \<longrightarrow> (\<forall>x<nat (m_numberOfSegments s).
                        m_refreshSegmentNeeded s' ! x = m_refreshSegmentNeeded s ! x)
                    \<and> (\<forall>p l. pulses p l s' = pulses p l s)"
    by blast
  have c: "(\<forall>l. pulses (m_segmentPinsList s ! i) l s' = pulses (m_segmentPinsList s ! i) l s)
           \<and> \<not> m_refreshSegmentNeeded s' ! i"
    if "distinct_pins s" "i < nat (m_numberOfSegments s)"
      "m_currentState s ! i = SEGMENT_STATE_COLOR" "\<not> m_refreshSegmentNeeded s ! i"
      "\<forall>k. m_refreshColorLimitL s \<le> real_of_int (adc e k (m_segmentPinsList s ! i))
           \<and> m_refreshColorLimitH s \<le> real_of_int (adc e k (m_segmentPinsList s ! i))"
    using refresh_color_in_range [OF calm nf wf that, of H] r by auto
  show ?thesis
    using classify_for_exact [OF calm nf wf] a b c by (simp add: r)
qed

theorem refresh_classification_witness:
  "classified still_env colored_driver 0
   \<and> \<not> classified still_env colored_driver 1
   \<and> fst (refreshDisplay demo_header still_env colored_driver) = Completed
   \<and> m_refreshSegmentNeeded (snd (refreshDisplay demo_header still_env colored_driver)) ! 0
   \<and> \<not> m_refreshSegmentNeeded (snd (refreshDisplay demo_header still_env colored_driver)) ! 1
   \<and> pulses 3 HIGH (snd (refreshDisplay demo_header still_env colored_driver)) = 0"
  using refresh_classification [of still_env colored_driver demo_header 1]
  by (simp add: calm_def still_env_def colored_driver_def demo_driver_def demo_header_def
        well_formed_def distinct_pins_def segments_def upt_two classified_def low_color_def
        high_bleach_def all_less_two pulses_def)

text \<open>
  The claim as it stands has no pulse for a colored segment whose sample is above
  \<open>m_refreshColorLimitL\<close>. With both segments colored, pin 2 at 100 and pin 3 at 700,
  segment 1 is above \<open>m_refreshColorLimitL = 613\<close> and is not classified; segment 0 starts
  the color loop, whose first re-check finds 700 below \<open>m_refreshColorLimitH = 818\<close>, and
  pin 3 is driven high in the two passes that follow.
\<close>

theorem refresh_classification_counterexample:
  "m_currentState colored_driver ! 1 = SEGMENT_STATE_COLOR
   \<and> m_segmentPinsList colored_driver ! 1 = 3
   \<and> \<not> m_refreshSegmentNeeded colored_driver ! 1
   \<and> m_refreshColorLimitL colored_driver < real_of_int (adc band_env 1 3)
   \<and> \<not> classified band_env colored_driver 1
   \<and> pulses 3 HIGH (snd (refreshDisplay demo_header band_env colored_driver)) = 2
   \<and> trace (snd (refreshDisplay demo_header band_env colored_driver)) =
       [AnalogWrite 14 511, Delay 50, PinMode 2 INPUT, PinMode 3 INPUT,
        PinMode 2 INPUT, AnalogRead 2, PinMode 3 INPUT, AnalogRead 3,
        AnalogWrite 14 204, Delay 50, AnalogWrite 14 613, Delay 50,
        PinMode 2 OUTPUT, DigitalWrite 2 HIGH, Delay 120, PinMode 2 INPUT,
        PinMode 3 INPUT, PinMode 2 INPUT, AnalogRead 2, PinMode 3 INPUT,
        AnalogRead 3, Delay 500, PinMode 2 OUTPUT, DigitalWrite 2 HIGH,
        PinMode 3 OUTPUT, DigitalWrite 3 HIGH, Delay 120, PinMode 2 INPUT,
        PinMode 3 INPUT, PinMode 2 INPUT, AnalogRead 2, PinMode 3 INPUT,
        AnalogRead 3, Delay 500, PinMode 2 OUTPUT, DigitalWrite 2 HIGH,
        PinMode 3 OUTPUT, DigitalWrite 3 HIGH, Delay 120, PinMode 2 INPUT,
        PinMode 3 INPUT, Delay 500, AnalogWrite 14 0]"
  by code_simp

lemma refresh_bleach_band:
  assumes calm: "calm e" and nf: "\<not> m_stopDrivingFlag s" and wf: "well_formed s"
    and dp: "distinct_pins s" and i: "i < nat (m_numberOfSegments s)"
    and M0: "0 \<le> MAX_REFRESH_RETRIES H"
    and ph: "m_currentState s ! i = SEGMENT_STATE_BLEACH"
    and trig: "\<exists>x<nat (m_numberOfSegments s).
                 high_bleach s x (adc e (reads s + x) (m_segmentPinsList s ! x))"
    and bey: "\<forall>k. m_refreshBleachLimitL s < real_of_int (adc e k (m_segmentPinsList s ! i))"
  shows "\<exists>s'. refreshDisplay H e s = (Completed, s')
           \<and> pulses (m_segmentPinsList s ! i) LOW s'
                = pulses (m_segmentPinsList s ! i) LOW s + nat (MAX_REFRESH_RETRIES H)
                  + (if m_refreshSegmentNeeded s ! i \<or> classified e s i then 1 else 0)
           \<and> samples (m_segmentPinsList s ! i) s'
                = samples (m_segmentPinsList s ! i) s + 1 + nat (MAX_REFRESH_RETRIES H)
           \<and> (m_refreshSegmentNeeded s ! i \<or> classified e s i \<or> 0 < MAX_REFRESH_RETRIES H
                \<longrightarrow> m_refreshSegmentNeeded s' ! i)"
proof -
  let ?p = "m_segmentPinsList s ! i"
  let ?rb = "\<exists>x<nat (m_numberOfSegments s).
                high_bleach s x (adc e (reads s + x) (m_segmentPinsList s ! x))"
  let ?rc = "\<exists>x<nat (m_numberOfSegments s).
                low_color s x (adc e (reads s + x) (m_segmentPinsList s ! x))"
  let ?M = "MAX_REFRESH_RETRIES H"
  have some: "\<exists>x<nat (m_numberOfSegments s). classified e s x"
    using trig unfolding classified_def by blast
  let ?A = "\<lambda>s6. enableCounterElectrode H (refreshBleachingVoltage (m_cfg s)) s6"
  let ?B = "\<lambda>s7. enableCounterElectrode H
                   (m_supplyVoltage s - refreshColoringVoltage (m_cfg s)) s7"
  from refreshDisplay_stages [OF calm nf wf, of H] some trig
  obtain s6 s7 s9 where f6: "\<not> m_stopDrivingFlag s6" "refresh_frame s s6"
    and p6: "\<forall>p l. pulses p l s6 = pulses p l s"
    and n6: "\<forall>x<nat (m_numberOfSegments s).
            m_refreshSegmentNeeded s6 ! x = (m_refreshSegmentNeeded s ! x \<or> classified e s x)"
    and m6: "distinct_pins s \<longrightarrow> (\<forall>x<nat (m_numberOfSegments s).
            samples (m_segmentPinsList s ! x) s6 = samples (m_segmentPinsList s ! x) s + 1)"
    and w7: "refresh_bleach_while H e True 0 (?A s6) = Inr s7"
    and f7: "\<not> m_stopDrivingFlag s7" "refresh_frame (?A s6) s7"
    and w9: "refresh_color_while H e (m_refreshColorLimitH s) ?rc 0 (?B s7) = Inr s9"
    and f9: "\<not> m_stopDrivingFlag s9" "refresh_frame (?B s7) s9"
    and r: "refreshDisplay H e s = (Completed, disableCounterElectrode s9)"
    by auto
  have fr6: "refresh_frame s (?A s6)"
    using f6(2) refresh_frame_hw(2) by (blast intro: refresh_frame_trans)
  note ff6 = refresh_frame_facts [OF fr6]
  have g6: "\<not> m_stopDrivingFlag (?A s6)" "i < nat (m_numberOfSegments (?A s6))"
    "m_currentState (?A s6) ! i = SEGMENT_STATE_BLEACH"
    "\<forall>k. m_refreshBleachLimitL (?A s6) < real_of_int (adc e k (m_segmentPinsList (?A s6) ! i))"
    "m_segmentPinsList (?A s6) ! i = ?p"
    "m_refreshSegmentNeeded (?A s6) ! i = (m_refreshSegmentNeeded s ! i \<or> classified e s i)"
    using f6(1) i ph bey ff6(1,3,4) n6
    by (simp_all add: world_steps setup_eq_def enableCounterElectrode_eq)
  have q6: "pulses ?p LOW (?A s6) = pulses ?p LOW s" "samples ?p (?A s6) = samples ?p s + 1"
    using p6 m6 dp i by (simp_all add: world_steps samples_steps)
  from bleach_while_always [OF calm g6(1) ff6(6) [OF wf] ff6(7) [OF dp] g6(2,3,4), of 0 H] M0 w7
  have h7: "pulses ?p LOW s7 = pulses ?p LOW s + nat ?M
              + (if m_refreshSegmentNeeded s ! i \<or> classified e s i then 1 else 0)"
    "m_refreshSegmentNeeded s ! i \<or> classified e s i \<or> 0 < ?M \<longrightarrow> m_refreshSegmentNeeded s7 ! i"
    using g6(5,6) q6(1) by auto
  from bleach_while_samples [OF calm g6(1) ff6(6) [OF wf] ff6(7) [OF dp] g6(2,3,4), of 0 H] M0 w7
  have c7: "samples ?p s7 = samples ?p s + 1 + nat ?M"
    using g6(5) q6(2) by auto
  have fr8: "refresh_frame s (?B s7)"
    using fr6 f7(2) refresh_frame_hw(2) by (blast intro: refresh_frame_trans)
  note ff8 = refresh_frame_facts [OF fr8]
  have g8: "\<not> m_stopDrivingFlag (?B s7)" "i < nat (m_numberOfSegments (?B s7))"
    "m_segmentPinsList (?B s7) ! i = ?p" "m_currentState (?B s7) ! i \<noteq> SEGMENT_STATE_COLOR"
    "m_refreshSegmentNeeded (?B s7) = m_refreshSegmentNeeded s7"
    using f7(1) i ff8(1,3,4) ph
    by (simp_all add: world_steps setup_eq_def enableCounterElectrode_eq)
  have q8: "pulses ?p LOW (?B s7) = pulses ?p LOW s7" "samples ?p (?B s7) = samples ?p s7"
    by (simp_all add: world_steps samples_steps)
  from color_while_other [OF calm g8(1) ff8(6) [OF wf] ff8(7) [OF dp] g8(2,4),
      of H "m_refreshColorLimitH s" ?rc 0] w9
  have h9: "pulses ?p LOW s9 = pulses ?p LOW s7"
    "m_refreshSegmentNeeded s9 ! i = m_refreshSegmentNeeded s7 ! i"
    using g8(3,5) q8(1) by auto
  from color_while_samples_other [OF calm g8(1) ff8(6) [OF wf] ff8(7) [OF dp] g8(2,4),
      of H "m_refreshColorLimitH s" ?rc 0] w9
  have c9: "samples ?p s9 = samples ?p s7"
    using g8(3) q8(2) by auto
  have "pulses ?p LOW (disableCounterElectrode s9) = pulses ?p LOW s9"
    "samples ?p (disableCounterElectrode s9) = samples ?p s9"
    "m_refreshSegmentNeeded (disableCounterElectrode s9) = m_refreshSegmentNeeded s9"
    by (simp_all add: world_steps samples_steps) (simp add: disableCounterElectrode_eq)
  then show ?thesis
    using r h7 c7 h9 c9 by simp
qed

lemma refresh_color_band:
  assumes calm: "calm e" and nf: "\<not> m_stopDrivingFlag s" and wf: "well_formed s"
    and dp: "distinct_pins s" and i: "i < nat (m_numberOfSegments s)"
    and M0: "0 \<le> MAX_REFRESH_RETRIES H"
    and ph: "m_currentState s ! i = SEGMENT_STATE_COLOR"
    and trig: "\<exists>x<nat (m_numberOfSegments s).
                 low_color s x (adc e (reads s + x) (m_segmentPinsList s ! x))"
    and bey: "\<forall>k. real_of_int (adc e k (m_segmentPinsList s ! i)) < m_refreshColorLimitH s"
  shows "\<exists>s'. refreshDisplay H e s = (Completed, s')
           \<and> pulses (m_segmentPinsList s ! i) HIGH s'
                = pulses (m_segmentPinsList s ! i) HIGH s + nat (MAX_REFRESH_RETRIES H)
                  + (if m_refreshSegmentNeeded s ! i \<or> classified e s i then 1 else 0)
           \<and> samples (m_segmentPinsList s ! i) s'
                = samples (m_segmentPinsList s ! i) s + 1 + nat (MAX_REFRESH_RETRIES H)
           \<and> (m_refreshSegmentNeeded s ! i \<or> classified e s i \<or> 0 < MAX_REFRESH_RETRIES H
                \<longrightarrow> m_refreshSegmentNeeded s' ! i)"
proof -
  let ?p = "m_segmentPinsList s ! i"
  let ?rb = "\<exists>x<nat (m_numberOfSegments s).
                high_bleach s x (adc e (reads s + x) (m_segmentPinsList s ! x))"
  let ?M = "MAX_REFRESH_RETRIES H"
  have some: "\<exists>x<nat (m_numberOfSegments s). classified e s x"
    using trig unfolding classified_def by blast
  let ?A = "\<lambda>s6. enableCounterElectrode H (refreshBleachingVoltage (m_cfg s)) s6"
  let ?B = "\<lambda>s7. enableCounterElectrode H
                   (m_supplyVoltage s - refreshColoringVoltage (m_cfg s)) s7"
  from refreshDisplay_stages [OF calm nf wf, of H] some trig
  obtain s6 s7 s9 where f6: "\<not> m_stopDrivingFlag s6" "refresh_frame s s6"
    and p6: "\<forall>p l. pulses p l s6 = pulses p l s"
    and n6: "\<forall>x<nat (m_numberOfSegments s).
            m_refreshSegmentNeeded s6 ! x = (m_refreshSegmentNeeded s ! x \<or> classified e s x)"
    and m6: "distinct_pins s \<longrightarrow> (\<forall>x<nat (m_numberOfSegments s).
            samples (m_segmentPinsList s ! x) s6 = samples (m_segmentPinsList s ! x) s + 1)"
    and w7: "refresh_bleach_while H e ?rb 0 (?A s6) = Inr s7"
    and f7: "\<not> m_stopDrivingFlag s7" "refresh_frame (?A s6) s7"
    and w9: "refresh_color_while H e (m_refreshColorLimitH s) True 0 (?B s7) = Inr s9"
    and f9: "\<not> m_stopDrivingFlag s9" "refresh_frame (?B s7) s9"
    and r: "refreshDisplay H e s = (Completed, disableCounterElectrode s9)"
    by auto
  have fr6: "refresh_frame s (?A s6)"
    using f6(2) refresh_frame_hw(2) by (blast intro: refresh_frame_trans)
  note ff6 = refresh_frame_facts [OF fr6]
  have g6: "\<not> m_stopDrivingFlag (?A s6)" "i < nat (m_numberOfSegments (?A s6))"
    "m_currentState (?A s6) ! i \<noteq> SEGMENT_STATE_BLEACH"
    "m_segmentPinsList (?A s6) ! i = ?p"
    "m_refreshSegmentNeeded (?A s6) ! i = (m_refreshSegmentNeeded s ! i \<or> classified e s i)"
    using f6(1) i ph ff6(1,3,4) n6
    by (simp_all add: world_steps setup_eq_def enableCounterElectrode_eq)
  have q6: "pulses ?p HIGH (?A s6) = pulses ?p HIGH s" "samples ?p (?A s6) = samples ?p s + 1"
    using p6 m6 dp i by (simp_all add: world_steps samples_steps)
  from bleach_while_other [OF calm g6(1) ff6(6) [OF wf] ff6(7) [OF dp] g6(2,3), of H ?rb 0] w7
  have h7: "pulses ?p HIGH s7 = pulses ?p HIGH s"
    "m_refreshSegmentNeeded s7 ! i = (m_refreshSegmentNeeded s ! i \<or> classified e s i)"
    using g6(4,5) q6(1) by auto
  from bleach_while_samples_other [OF calm g6(1) ff6(6) [OF wf] ff6(7) [OF dp] g6(2,3),
      of H ?rb 0] w7
  have c7: "samples ?p s7 = samples ?p s + 1"
    using g6(4) q6(2) by auto
  have fr8: "refresh_frame s (?B s7)"
    using fr6 f7(2) refresh_frame_hw(2) by (blast intro: refresh_frame_trans)
  note ff8 = refresh_frame_facts [OF fr8]
  have g8: "\<not> m_stopDrivingFlag (?B s7)" "i < nat (m_numberOfSegments (?B s7))"
    "m_currentState (?B s7) ! i = SEGMENT_STATE_COLOR"
    "\<forall>k. real_of_int (adc e k (m_segmentPinsList (?B s7) ! i)) < m_refreshColorLimitH s"
    "m_segmentPinsList (?B s7) ! i = ?p"
    "m_refreshSegmentNeeded (?B s7) = m_refreshSegmentNeeded s7"
    using f7(1) i ff8(1,3,4) ph bey
    by (simp_all add: world_steps setup_eq_def enableCounterElectrode_eq)
  have q8: "pulses ?p HIGH (?B s7) = pulses ?p HIGH s7" "samples ?p (?B s7) = samples ?p s7"
    by (simp_all add: world_steps samples_steps)
  from color_while_always [OF calm g8(1) ff8(6) [OF wf] ff8(7) [OF dp] g8(2,3,4), of 0 H] M0 w9
  have h9: "pulses ?p HIGH s9 = pulses ?p HIGH s + nat ?M
              + (if m_refreshSegmentNeeded s ! i \<or> classified e s i then 1 else 0)"
    "m_refreshSegmentNeeded s ! i \<or> classified e s i \<or> 0 < ?M \<longrightarrow> m_refreshSegmentNeeded s9 ! i"
    using g8(5,6) q8(1) h7 by auto
  from color_while_samples [OF calm g8(1) ff8(6) [OF wf] ff8(7) [OF dp] g8(2,3,4), of 0 H] M0 w9
  have c9: "samples ?p s9 = samples ?p s + 1 + nat ?M"
    using g8(5) q8(2) c7 by auto
  have "pulses ?p HIGH (disableCounterElectrode s9) = pulses ?p HIGH s9"
    "samples ?p (disableCounterElectrode s9) = samples ?p s9"
    "m_refreshSegmentNeeded (disableCounterElectrode s9) = m_refreshSegmentNeeded s9"
    by (simp_all add: world_steps samples_steps) (simp add: disableCounterElectrode_eq)
  then show ?thesis
    using r h9 c9 by simp
qed

lemma ex_less_two: "(\<exists>x<2::nat. P x) \<longleftrightarrow> P 0 \<or> P 1"
  by (metis One_nat_def less_2_cases_iff)

section \<open>Segments flagged by the re-check\<close>

text \<open>
  C10. The re-check of a retry loop samples every segment in the state of the phase,
  flagged or not. Take a segment whose flag is clear on entry and whose samples pass the
  classification but are beyond the limit of the retry loop: bleached, with every sample
  at most \<open>m_refreshBleachLimitH\<close> and above \<open>m_refreshBleachLimitL\<close>, or colored, with every
  sample at least \<open>m_refreshColorLimitL\<close> and below \<open>m_refreshColorLimitH\<close>. If the
  classification of some segment starts the loop of its phase, and \<open>MAX_REFRESH_RETRIES\<close>
  is positive, no interrupt comes, the object is well formed and the pins are distinct,
  then the segment is not classified, yet \<^verbatim>\<open>refreshDisplay\<close> returns with its flag set: the
  first re-check, made with \<open>retries = 0 < MAX_REFRESH_RETRIES\<close>, flags it. It is pulsed in
  each of the \<open>MAX_REFRESH_RETRIES\<close> passes that follow, and its pin is read once by the
  classification and once in each of the \<open>MAX_REFRESH_RETRIES\<close> re-checks made while
  \<open>retries < MAX_REFRESH_RETRIES\<close>.
\<close>

theorem recheck_flags_unflagged:
  assumes calm: "calm e" and nf: "\<not> m_stopDrivingFlag s" and wf: "well_formed s"
    and dp: "distinct_pins s" and i: "i < nat (m_numberOfSegments s)"
    and M: "0 < MAX_REFRESH_RETRIES H"
    and clear: "\<not> m_refreshSegmentNeeded s ! i"
  shows "(m_currentState s ! i = SEGMENT_STATE_BLEACH
            \<and> (\<exists>x<nat (m_numberOfSegments s).
                  high_bleach s x (adc e (reads s + x) (m_segmentPinsList s ! x)))
            \<and> (\<forall>k. real_of_int (adc e k (m_segmentPinsList s ! i)) \<le> m_refreshBleachLimitH s
                   \<and> m_refreshBleachLimitL s < real_of_int (adc e k (m_segmentPinsList s ! i)))
          \<longrightarrow> \<not> classified e s i
              \<and> fst (refreshDisplay H e s) = Completed
              \<and> m_refreshSegmentNeeded (snd (refreshDisplay H e s)) ! i
              \<and> pulses (m_segmentPinsList s ! i) LOW (snd (refreshDisplay H e s))
                  = pulses (m_segmentPinsList s ! i) LOW s + nat (MAX_REFRESH_RETRIES H)
              \<and> samples (m_segmentPinsList s ! i) (snd (refreshDisplay H e s))
                  = samples (m_segmentPinsList s ! i) s + 1 + nat (MAX_REFRESH_RETRIES H))
       \<and> (m_currentState s ! i = SEGMENT_STATE_COLOR
            \<and> (\<exists>x<nat (m_numberOfSegments s).
                  low_color s x (adc e (reads s + x) (m_segmentPinsList s ! x)))
            \<and> (\<forall>k. m_refreshColorLimitL s \<le> real_of_int (adc e k (m_segmentPinsList s ! i))
                   \<and> real_of_int (adc e k (m_segmentPinsList s ! i)) < m_refreshColorLimitH s)
          \<longrightarrow> \<not> classified e s i
              \<and> fst (refreshDisplay H e s) = Completed
              \<and> m_refreshSegmentNeeded (snd (refreshDisplay H e s)) ! i
              \<and> pulses (m_segmentPinsList s ! i) HIGH (snd (refreshDisplay H e s))
                  = pulses (m_segmentPinsList s ! i) HIGH s + nat (MAX_REFRESH_RETRIES H)
              \<and> samples (m_segmentPinsList s ! i) (snd (refreshDisplay H e s))
                  = samples (m_segmentPinsList s ! i) s + 1 + nat (MAX_REFRESH_RETRIES H))"
proof (intro conjI impI)
  assume a: "m_currentState s ! i = SEGMENT_STATE_BLEACH
            \<and> (\<exists>x<nat (m_numberOfSegments s).
                  high_bleach s x (adc e (reads s + x) (m_segmentPinsList s ! x)))
            \<and> (\<forall>k. real_of_int (adc e k (m_segmentPinsList s ! i)) \<le> m_refreshBleachLimitH s
                   \<and> m_refreshBleachLimitL s < real_of_int (adc e k (m_segmentPinsList s ! i)))"
  then have nc: "\<not> classified e s i"
    by (auto simp: classified_def low_color_def high_bleach_def not_less)
  have M0: "0 \<le> MAX_REFRESH_RETRIES H" using M by simp
  from refresh_bleach_band [OF calm nf wf dp i M0] a
  obtain s' where r: "refreshDisplay H e s = (Completed, s')"
    and p: "pulses (m_segmentPinsList s ! i) LOW s'
                = pulses (m_segmentPinsList s ! i) LOW s + nat (MAX_REFRESH_RETRIES H)
                  + (if m_refreshSegmentNeeded s ! i \<or> classified e s i then 1 else 0)"
    and c: "samples (m_segmentPinsList s ! i) s'
                = samples (m_segmentPinsList s ! i) s + 1 + nat (MAX_REFRESH_RETRIES H)"
    and n: "m_refreshSegmentNeeded s ! i \<or> classified e s i \<or> 0 < MAX_REFRESH_RETRIES H
                \<longrightarrow> m_refreshSegmentNeeded s' ! i"
    by blast
  show "\<not> classified e s i" by (rule nc)
  show "fst (refreshDisplay H e s) = Completed" using r by simp
  show "m_refreshSegmentNeeded (snd (refreshDisplay H e s)) ! i" using r n M by simp
  show "pulses (m_segmentPinsList s ! i) LOW (snd (refreshDisplay H e s))
          = pulses (m_segmentPinsList s ! i) LOW s + nat (MAX_REFRESH_RETRIES H)"
    using r p nc clear by simp
  show "samples (m_segmentPinsList s ! i) (snd (refreshDisplay H e s))
          = samples (m_segmentPinsList s ! i) s + 1 + nat (MAX_REFRESH_RETRIES H)"
    using r c by simp
next
  assume a: "m_currentState s ! i = SEGMENT_STATE_COLOR
            \<and> (\<exists>x<nat (m_numberOfSegments s).
                  low_color s x (adc e (reads s + x) (m_segmentPinsList s ! x)))
            \<and> (\<forall>k. m_refreshColorLimitL s \<le> real_of_int (adc e k (m_segmentPinsList s ! i))
                   \<and> real_of_int (adc e k (m_segmentPinsList s ! i)) < m_refreshColorLimitH s)"
  then have nc: "\<not> classified e s i"
    by (auto simp: classified_def low_color_def high_bleach_def not_less)
  have M0: "0 \<le> MAX_REFRESH_RETRIES H" using M by simp
  from refresh_color_band [OF calm nf wf dp i M0] a
  obtain s' where r: "refreshDisplay H e s = (Completed, s')"
    and p: "pulses (m_segmentPinsList s ! i) HIGH s'
                = pulses (m_segmentPinsList s ! i) HIGH s + nat (MAX_REFRESH_RETRIES H)
                  + (if m_refreshSegmentNeeded s ! i \<or> classified e s i then 1 else 0)"
    and c: "samples (m_segmentPinsList s ! i) s'
                = samples (m_segmentPinsList s ! i) s + 1 + nat (MAX_REFRESH_RETRIES H)"
    and n: "m_refreshSegmentNeeded s ! i \<or> classified e s i \<or> 0 < MAX_REFRESH_RETRIES H
                \<longrightarrow> m_refreshSegmentNeeded s' ! i"
    by blast
  show "\<not> classified e s i" by (rule nc)
  show "fst (refreshDisplay H e s) = Completed" using r by simp
  show "m_refreshSegmentNeeded (snd (refreshDisplay H e s)) ! i" using r n M by simp
  show "pulses (m_segmentPinsList s ! i) HIGH (snd (refreshDisplay H e s))
          = pulses (m_segmentPinsList s ! i) HIGH s + nat (MAX_REFRESH_RETRIES H)"
    using r p nc clear by simp
  show "samples (m_segmentPinsList s ! i) (snd (refreshDisplay H e s))
          = samples (m_segmentPinsList s ! i) s + 1 + nat (MAX_REFRESH_RETRIES H)"
    using r c by simp
qed

theorem recheck_flags_unflagged_witness:
  "\<not> classified bleach_band_env bleached_driver 1
   \<and> m_refreshSegmentNeeded (snd (refreshDisplay demo_header bleach_band_env bleached_driver)) ! 1
   \<and> pulses 3 LOW (snd (refreshDisplay demo_header bleach_band_env bleached_driver)) = 2
   \<and> samples 3 (snd (refreshDisplay demo_header bleach_band_env bleached_driver)) = 3
   \<and> \<not> classified band_env colored_driver 1
   \<and> m_refreshSegmentNeeded (snd (refreshDisplay demo_header band_env colored_driver)) ! 1
   \<and> pulses 3 HIGH (snd (refreshDisplay demo_header band_env colored_driver)) = 2
   \<and> samples 3 (snd (refreshDisplay demo_header band_env colored_driver)) = 3"
  using recheck_flags_unflagged [of bleach_band_env bleached_driver 1 demo_header]
    recheck_flags_unflagged [of band_env colored_driver 1 demo_header]
  by (simp add: calm_def bleach_band_env_def band_env_def bleached_driver_def colored_driver_def
        demo_driver_def demo_header_def well_formed_def distinct_pins_def segments_def upt_two
        low_color_def high_bleach_def ex_less_two pulses_def samples_def)

(*THMS*)

end
